theory Spec2Isabelle
  imports Main
begin

section \<open>Strings, values and errors of the Python program\<close>

text \<open>
  A Python \<open>str\<close> is a sequence of Unicode code points: \<open>s[:-1]\<close> drops one code
  point, whatever its UTF-8 length. Strings are therefore lists of code points, and a
  literal of the source is written as the list of its code points (\<open>ustr\<close> for the
  ASCII ones).
\<close>

type_synonym ustring = "nat list"

definition ustr :: "string \<Rightarrow> ustring" where
  "ustr s = map of_char s"

text \<open>The exceptions the program can raise; \<open>ValueError\<close> carries its message.\<close>

datatype pyerror =
    IndexError
  | TypeError
  | AttributeError
  | ValueError ustring
  | ReError

text \<open>An answer is a string or Python's \<open>None\<close>: the sentinel ABSENT may be either.\<close>

datatype pyval = PStr ustring | PNone

definition bindE :: "'e + 'a \<Rightarrow> ('a \<Rightarrow> 'e + 'b) \<Rightarrow> 'e + 'b" where
  "bindE m f = (case m of Inl e \<Rightarrow> Inl e | Inr x \<Rightarrow> f x)"

text \<open>
  \<open>str.strip()\<close> removes leading and trailing whitespace; these are the code points
  for which \<open>str.isspace\<close> holds.
\<close>

definition isspace :: "nat \<Rightarrow> bool" where
  "isspace c \<longleftrightarrow>
     (0x09 \<le> c \<and> c \<le> 0x0D) \<or> (0x1C \<le> c \<and> c \<le> 0x20) \<or> c = 0x85 \<or> c = 0xA0 \<or>
     c = 0x1680 \<or> (0x2000 \<le> c \<and> c \<le> 0x200A) \<or> c = 0x2028 \<or> c = 0x2029 \<or>
     c = 0x202F \<or> c = 0x205F \<or> c = 0x3000"

definition strip :: "ustring \<Rightarrow> ustring" where
  "strip s = rev (dropWhile isspace (rev (dropWhile isspace s)))"

text \<open>\<open>str.join(sep, xs)\<close>.\<close>

fun join :: "ustring \<Rightarrow> ustring list \<Rightarrow> ustring" where
  "join sep [] = []"
| "join sep [x] = x"
| "join sep (x # y # ys) = x @ sep @ join sep (y # ys)"

text \<open>\<open>str(n)\<close> for a non-negative integer, as an f-string formats an index.\<close>

fun str_nat :: "nat \<Rightarrow> ustring" where
  "str_nat n = (if n < 10 then [48 + n] else str_nat (n div 10) @ [48 + n mod 10])"

declare str_nat.simps [simp del]

text \<open>An f-string field \<open>{x}\<close> prints \<open>None\<close> as the four letters.\<close>

definition fstr :: "ustring option \<Rightarrow> ustring" where
  "fstr g = (case g of None \<Rightarrow> ustr ''None'' | Some s \<Rightarrow> s)"

text \<open>Truthiness of a value that is a string or \<open>None\<close>.\<close>

definition truthy :: "ustring option \<Rightarrow> bool" where
  "truthy g = (case g of None \<Rightarrow> False | Some s \<Rightarrow> s \<noteq> [])"

text \<open>\<open>s.endswith('.')\<close>.\<close>

definition endswith_dot :: "ustring \<Rightarrow> bool" where
  "endswith_dot s \<longleftrightarrow> s \<noteq> [] \<and> last s = 0x2E"

section \<open>Match objects and the constants module\<close>

text \<open>
  A match object of \<open>re.search\<close>: group 0 is the whole match, a group that did not
  take part reads as \<open>None\<close>, and \<open>end()\<close> is the position after the match. The
  patterns are fixed constants, with the groups the code reads from them; \<open>group\<close>
  reads a group of the list.
\<close>

record rmatch =
  groups :: "ustring option list"
  mend :: nat

definition group :: "rmatch \<Rightarrow> nat \<Rightarrow> ustring option" where
  "group m n = (case drop n (groups m) of [] \<Rightarrow> None | g # _ \<Rightarrow> g)"

text \<open>
  The program imports its patterns and the sentinel ABSENT from the module
  \<open>constants\<close>, which is not among the sources, so they are parameters of the model.
  Each pattern stands for its search: \<open>RE_TASK K text\<close> is
  \<open>re.search(RE_TASK, text)\<close>, with \<open>None\<close> when nothing matches. Two patterns are
  built at run time: \<open>RE_ANSWER_TEXT K n text\<close> is the search of
  \<open>f'{n}' + RE_ANSWER_TEXT\<close> for the integer \<open>n\<close>, and \<open>RE_PART_ANSWER K p text\<close>
  is the search of \<open>f'{p}' + RE_PART_ANSWER\<close>, where \<open>p\<close> is text of the document
  (or \<open>None\<close>) and the pattern may fail to compile. The builtins \<open>int\<close> and
  \<open>str.lower\<close> depend on the Unicode tables and are parameters too.
\<close>

record constants =
  RE_ANSWER_TEXT :: "int \<Rightarrow> ustring \<Rightarrow> rmatch option"
  RE_CHAPTER :: "ustring \<Rightarrow> rmatch option"
  RE_PART_ANSWER :: "ustring option \<Rightarrow> ustring \<Rightarrow> pyerror + rmatch option"
  RE_SUPREME_CHAPTER :: "ustring \<Rightarrow> rmatch option"
  RE_TASK :: "ustring \<Rightarrow> rmatch option"
  RE_TASK_ID :: "ustring \<Rightarrow> rmatch option"
  ABSENT :: pyval
  PY_int :: "ustring \<Rightarrow> pyerror + int"
  PY_lower :: "ustring \<Rightarrow> ustring"

section \<open>Chapter and task records\<close>

text \<open>
  The dictionaries of the program. The keys \<open>id\<close> of a chapter and \<open>paragraph\<close> of a task
  are the fields \<open>id_chapter\<close> and \<open>paragraph_id\<close>; a task has no key \<open>answer\<close>
  (the field is \<open>None\<close>) until one is assigned.
\<close>

record chapter_data =
  id_chapter :: int
  name :: ustring
  parent :: int

record task_data =
  classes :: ustring
  paragraph_id :: int
  topic_id :: int
  level :: int
  id_tasks_book :: ustring
  task :: "ustring option"
  answer :: "pyval option"

definition get_chapter_data :: "int \<Rightarrow> rmatch \<Rightarrow> int \<Rightarrow> chapter_data" where
  "get_chapter_data i m p =
     (if p = 0 then
        \<lparr>id_chapter = i, name = fstr (group m 1) @ fstr (group m 2), parent = p\<rparr>
      else
        \<lparr>id_chapter = i, name = fstr (group m 1) @ fstr (group m 2) @ fstr (group m 3),
         parent = p\<rparr>)"

definition new_task :: "int \<Rightarrow> ustring \<Rightarrow> ustring option \<Rightarrow> task_data" where
  "new_task p i t =
     \<lparr>classes = ustr ''5;6'', paragraph_id = p, topic_id = 1, level = 1,
      id_tasks_book = i, task = t, answer = None\<rparr>"

text \<open>
  \<open>get_task_data(match, paragraph, previous, exclusive)\<close> with the defaults of the
  other arguments. Slicing or concatenating \<open>None\<close> raises TypeError, and
  \<open>None.endswith\<close> raises AttributeError.
\<close>

definition get_task_data ::
  "rmatch \<Rightarrow> int \<Rightarrow> ustring option \<Rightarrow> bool \<Rightarrow> pyerror + task_data" where
  "get_task_data m p previous exclusive =
     (if exclusive then
        (case group m 1 of
           None \<Rightarrow> Inl TypeError
         | Some g1 \<Rightarrow> Inr (new_task p (butlast g1) (group m 2)))
      else if group m 1 = None then
        (case previous of
           None \<Rightarrow> Inl AttributeError
         | Some prev \<Rightarrow>
             (case group m 4 of
                None \<Rightarrow> Inl TypeError
              | Some g4 \<Rightarrow>
                  Inr (new_task p
                    (butlast ((if endswith_dot prev then prev else prev @ [0x2E]) @ g4))
                    (group m 5))))
      else
        (case group m 2 of
           None \<Rightarrow> Inl TypeError
         | Some g2 \<Rightarrow> Inr (new_task p (butlast (the (group m 1) @ g2)) (group m 3))))"

text \<open>
  \<open>find_next_task\<close> appends to \<open>tasks_data\<close> in place; the model returns the list
  with the index. Reading \<open>data[next_index]\<close> past the end raises IndexError.
\<close>

function find_next_task ::
  "constants \<Rightarrow> ustring list \<Rightarrow> task_data list \<Rightarrow> nat \<Rightarrow> ustring option \<Rightarrow> int
     \<Rightarrow> pyerror + (nat \<times> task_data list)" where
  "find_next_task K data tasks next_index previous_id p =
     (if length data \<le> next_index then Inl IndexError
      else
        (case RE_TASK K (data ! next_index) of
           None \<Rightarrow> Inr (next_index, tasks)
         | Some task_match \<Rightarrow>
             (case RE_SUPREME_CHAPTER K (data ! next_index) of
                Some _ \<Rightarrow> Inr (next_index, tasks)
              | None \<Rightarrow>
                  (case get_task_data task_match p previous_id False of
                     Inl e \<Rightarrow> Inl e
                   | Inr t \<Rightarrow>
                       find_next_task K data (tasks @ [t]) (next_index + 1) previous_id p))))"
  by pat_completeness auto
termination
  by (relation "measure (\<lambda>(K, data, tasks, i, prev, p). length data - i)") auto

declare find_next_task.simps [simp del]

text \<open>\<open>find_next_chapter\<close> returns the match and the index it was given.\<close>

definition find_next_chapter ::
  "constants \<Rightarrow> ustring list \<Rightarrow> nat \<Rightarrow> pyerror + (rmatch option \<times> nat)" where
  "find_next_chapter K data next_index =
     (if length data \<le> next_index then Inl IndexError
      else Inr (RE_CHAPTER K (data ! next_index), next_index))"

section \<open>The answer reconciler\<close>

definition get_answer_text :: "constants \<Rightarrow> int \<Rightarrow> ustring \<Rightarrow> pyerror + pyval" where
  "get_answer_text K task_id text =
     (case RE_ANSWER_TEXT K task_id text of
        Some answer_match \<Rightarrow>
          (case group answer_match 1 of
             None \<Rightarrow> Inl AttributeError
           | Some g \<Rightarrow> Inr (PStr (strip g)))
      | None \<Rightarrow> Inr (ABSENT K))"

text \<open>
  \<open>get_answer_part\<close> searches the text it is given; \<open>re.search\<close> on \<open>None\<close> raises
  TypeError. \<open>g[:end]\<close> keeps the first \<open>end\<close> code points of the group.
\<close>

definition get_answer_part :: "constants \<Rightarrow> ustring option \<Rightarrow> pyval \<Rightarrow> pyerror + pyval" where
  "get_answer_part K task_part_id text =
     (case text of
        PNone \<Rightarrow> Inl TypeError
      | PStr s \<Rightarrow>
          bindE (RE_PART_ANSWER K task_part_id s) (\<lambda>r.
            case r of
              None \<Rightarrow> Inr (ABSENT K)
            | Some answer_part_match \<Rightarrow>
                (case group answer_part_match 1 of
                   None \<Rightarrow> Inl TypeError
                 | Some g \<Rightarrow> Inr (PStr (strip (take (mend answer_part_match) g))))))"

text \<open>\<open>tasks_data[i]['answer'] = v\<close>, at an index that was read before.\<close>

definition set_answer :: "task_data list \<Rightarrow> nat \<Rightarrow> pyval \<Rightarrow> task_data list" where
  "set_answer tasks i v = tasks[i := (tasks ! i)\<lparr>answer := Some v\<rparr>]"

text \<open>\<open>int(match.group())\<close>: the whole match.\<close>

definition int_group0 :: "constants \<Rightarrow> rmatch \<Rightarrow> pyerror + int" where
  "int_group0 K m = (case group m 0 of None \<Rightarrow> Inl TypeError | Some g \<Rightarrow> PY_int K g)"

text \<open>
  One pass through the body of the loop of \<open>answer_parser\<close>, entered with
  \<open>index < len(tasks_data)\<close>: the new index, the new \<open>current_task_num\<close> and the
  task list. The look-ahead \<open>tasks_data[index + 1]\<close> raises IndexError past the end.
\<close>

definition answer_step ::
  "constants \<Rightarrow> ustring \<Rightarrow> nat \<Rightarrow> int \<Rightarrow> task_data list
     \<Rightarrow> pyerror + (nat \<times> int \<times> task_data list)" where
  "answer_step K answers_text index current_task_num tasks =
     (case RE_TASK_ID K (id_tasks_book (tasks ! index)) of
        None \<Rightarrow> Inl AttributeError
      | Some task_id_match \<Rightarrow>
          if truthy (group task_id_match 1) then
            bindE (PY_int K (the (group task_id_match 1))) (\<lambda>n.
              if n \<ge> current_task_num then
                bindE (get_answer_text K n answers_text) (\<lambda>answer.
                  if answer \<noteq> ABSENT K then
                    bindE (get_answer_part K (group task_id_match 2) answer) (\<lambda>answer_part.
                      Inr (index + 1, n, set_answer tasks index answer_part))
                  else Inr (index + 1, n, set_answer tasks index answer))
              else Inr (index + 1, current_task_num, tasks))
          else
            bindE (int_group0 K task_id_match) (\<lambda>c.
              if length tasks \<le> index + 1 then Inl IndexError
              else
                (case RE_TASK_ID K (id_tasks_book (tasks ! (index + 1))) of
                   None \<Rightarrow> Inl AttributeError
                 | Some next_task_id_match \<Rightarrow>
                     (case group next_task_id_match 1 of
                        None \<Rightarrow>
                          bindE (get_answer_text K c answers_text) (\<lambda>answer.
                            bindE (int_group0 K next_task_id_match) (\<lambda>c'.
                              bindE (get_answer_text K c' answers_text) (\<lambda>next_answer.
                                Inr (index + 2, c',
                                  set_answer (set_answer tasks index answer)
                                    (index + 1) next_answer))))
                      | Some g1 \<Rightarrow>
                          bindE (PY_int K g1) (\<lambda>n.
                            if n > c then
                              bindE (get_answer_text K c answers_text) (\<lambda>answer.
                                bindE (get_answer_text K n answers_text) (\<lambda>next_answer.
                                  if next_answer \<noteq> ABSENT K then
                                    bindE (get_answer_part K (group next_task_id_match 2)
                                             next_answer) (\<lambda>next_answer_part.
                                      Inr (index + 2, n,
                                        set_answer (set_answer tasks index answer)
                                          (index + 1) next_answer_part))
                                  else
                                    Inr (index + 2, n,
                                      set_answer (set_answer tasks index answer)
                                        (index + 1) next_answer)))
                            else if n = c then
                              bindE (get_answer_text K c answers_text) (\<lambda>next_answer.
                                if next_answer \<noteq> ABSENT K then
                                  bindE (get_answer_part K (group next_task_id_match 2)
                                           next_answer) (\<lambda>next_answer_part.
                                    Inr (index + 1, c,
                                      set_answer (set_answer tasks index (ABSENT K))
                                        (index + 1) next_answer_part))
                                else Inr (index + 1, c, set_answer tasks index (ABSENT K)))
                            else Inr (index + 1, c, tasks))))))"

lemma bindE_simps [simp]:
  "bindE (Inl e) f = Inl e"
  "bindE (Inr x) f = f x"
  by (simp_all add: bindE_def)

lemma bindE_eq_Inr: "bindE m f = Inr y \<longleftrightarrow> (\<exists>x. m = Inr x \<and> f x = Inr y)"
  by (cases m) simp_all

lemma bindE_Inr_E:
  assumes "bindE m f = Inr y"
  obtains x where "m = Inr x" and "f x = Inr y"
  using assms by (cases m) simp_all

lemma length_set_answer [simp]: "length (set_answer tasks i v) = length tasks"
  by (simp add: set_answer_def)

lemma answer_step_advances:
  assumes "answer_step K text index cur tasks = Inr (i, c, ts)"
  shows "index < i \<and> length ts = length tasks"
  using assms unfolding answer_step_def
  by (auto elim!: bindE_Inr_E split: option.splits if_splits)

function answer_loop ::
  "constants \<Rightarrow> ustring \<Rightarrow> nat \<Rightarrow> int \<Rightarrow> task_data list \<Rightarrow> pyerror + task_data list" where
  "answer_loop K answers_text index current_task_num tasks =
     (if index < length tasks then
        (case answer_step K answers_text index current_task_num tasks of
           Inl e \<Rightarrow> Inl e
         | Inr (i, c, ts) \<Rightarrow> answer_loop K answers_text i c ts)
      else Inr tasks)"
  by pat_completeness auto
termination
proof (relation "measure (\<lambda>(K, text, index, cur, tasks). length tasks - index)")
  show "wf (measure (\<lambda>(K, text, index, cur, tasks). length tasks - index))"
    by simp
next
  fix K :: constants and answers_text index current_task_num
  fix tasks :: "task_data list" and x2 i y c ts
  assume "index < length tasks"
    and "answer_step K answers_text index current_task_num tasks = Inr x2"
    and "(i, y) = x2" and "(c, ts) = y"
  then have "answer_step K answers_text index current_task_num tasks = Inr (i, c, ts)"
    by simp
  from answer_step_advances [OF this] \<open>index < length tasks\<close>
  show "((K, answers_text, i, c, ts), K, answers_text, index, current_task_num, tasks)
          \<in> measure (\<lambda>(K, text, index, cur, tasks). length tasks - index)"
    by auto
qed

declare answer_loop.simps [simp del]

definition answer_parser ::
  "constants \<Rightarrow> ustring list \<Rightarrow> task_data list \<Rightarrow> pyerror + task_data list" where
  "answer_parser K data tasks = answer_loop K (join [0x0A] data) 0 0 tasks"

section \<open>The sequential structure parser\<close>

text \<open>The local variables of \<open>parser\<close> that the loop reads and writes.\<close>

record pstate =
  chapters_data :: "chapter_data list"
  tasks_data :: "task_data list"
  answers_text :: "ustring list"
  index :: nat
  current_chapter :: int
  supreme_chapter_id :: int
  current_id :: int

text \<open>How a pass through the loop body ends: at a \<open>continue\<close> (or its end), or at \<open>break\<close>.\<close>

datatype 'a ctl = Continue 'a | Break 'a

text \<open>\<open>xs[-1]\<close>, which raises IndexError on the empty list.\<close>

definition last_elem :: "'a list \<Rightarrow> pyerror + 'a" where
  "last_elem xs = (if xs = [] then Inl IndexError else Inr (last xs))"

text \<open>
  The two section titles that the source compares paragraphs with (the Russian for
  ``answers and hints'' and for ``table of contents''), as code points.
\<close>

definition answers_title :: ustring where
  "answers_title =
     [0x41E, 0x442, 0x432, 0x435, 0x442, 0x44B, 0x20, 0x438, 0x20, 0x441, 0x43E, 0x432,
      0x435, 0x442, 0x44B]"

definition contents_title :: ustring where
  "contents_title = [0x43E, 0x433, 0x43B, 0x430, 0x432, 0x43B, 0x435, 0x43D, 0x438, 0x435]"

text \<open>The inner loop that collects the paragraphs of the answers section.\<close>

function collect_answers ::
  "constants \<Rightarrow> ustring list \<Rightarrow> nat \<Rightarrow> ustring list \<Rightarrow> nat \<times> ustring list" where
  "collect_answers K data i answers =
     (if i < length data then
        (if strip (PY_lower K (data ! i)) = contents_title then (i, answers)
         else collect_answers K data (i + 1) (answers @ [data ! i]))
      else (i, answers))"
  by pat_completeness auto
termination
  by (relation "measure (\<lambda>(K, data, i, answers). length data - i)") auto

declare collect_answers.simps [simp del]

text \<open>
  \<open>previous_id = tasks_data[-1]['id_tasks_book'] if task_match.group(4) else
  task_match.group(1)\<close>.
\<close>

definition previous_id_of :: "task_data list \<Rightarrow> rmatch \<Rightarrow> pyerror + ustring option" where
  "previous_id_of tasks task_match =
     (if truthy (group task_match 4) then
        bindE (last_elem tasks) (\<lambda>t. Inr (Some (id_tasks_book t)))
      else Inr (group task_match 1))"

text \<open>
  One pass through the body of the main loop, entered with \<open>index < len(data)\<close>.
  \<open>int(supreme_chapter_match.group(1)[:-1])\<close> is computed first in the branch of a
  supreme-chapter line; the error message of the last branch is
  \<open>f'index:{index}    {text}'\<close>.
\<close>

definition parser_step :: "constants \<Rightarrow> ustring list \<Rightarrow> pstate \<Rightarrow> pyerror + pstate ctl" where
  "parser_step K data st =
     (let text = data ! index st in
      case RE_SUPREME_CHAPTER K text of
        Some supreme_chapter_match \<Rightarrow>
          (case group supreme_chapter_match 1 of
             None \<Rightarrow> Inl TypeError
           | Some g1 \<Rightarrow>
               bindE (PY_int K (butlast g1)) (\<lambda>n.
                 if n = current_chapter st + 1 \<and> RE_TASK K text = None then
                   bindE (find_next_chapter K data (index st + 1)) (\<lambda>(chapter_match, chapter_index).
                     case chapter_match of
                       Some cm \<Rightarrow>
                         Inr (Continue (st\<lparr>
                           chapters_data := chapters_data st @
                             [get_chapter_data (current_id st) supreme_chapter_match 0,
                              get_chapter_data (current_id st + 1) cm (current_id st)],
                           supreme_chapter_id := current_id st,
                           current_id := current_id st + 2,
                           current_chapter := n,
                           index := chapter_index + 1\<rparr>))
                     | None \<Rightarrow>
                         Inr (Continue (st\<lparr>
                           chapters_data := chapters_data st @
                             [get_chapter_data (current_id st) supreme_chapter_match 0],
                           supreme_chapter_id := current_id st,
                           current_id := current_id st + 1,
                           current_chapter := n,
                           index := index st + 1\<rparr>)))
                 else
                   (case RE_CHAPTER K text of
                      Some cm \<Rightarrow>
                        Inr (Continue (st\<lparr>
                          chapters_data := chapters_data st @
                            [get_chapter_data (current_id st) cm (supreme_chapter_id st)],
                          current_id := current_id st + 1,
                          index := index st + 1\<rparr>))
                    | None \<Rightarrow>
                        bindE (last_elem (chapters_data st)) (\<lambda>c.
                          case RE_TASK K text of
                            Some task_match \<Rightarrow>
                              bindE (previous_id_of (tasks_data st) task_match) (\<lambda>previous_id.
                                bindE (get_task_data task_match (id_chapter c) previous_id False)
                                  (\<lambda>t.
                                    bindE (find_next_task K data (tasks_data st @ [t])
                                             (index st + 1) (group task_match 1) (id_chapter c))
                                      (\<lambda>(i, tasks).
                                        Inr (Continue (st\<lparr>tasks_data := tasks, index := i\<rparr>)))))
                          | None \<Rightarrow>
                              bindE (get_task_data supreme_chapter_match (id_chapter c) None True)
                                (\<lambda>t.
                                  Inr (Continue (st\<lparr>
                                    tasks_data := tasks_data st @ [t],
                                    index := index st + 1\<rparr>)))))))
      | None \<Rightarrow>
          (case RE_CHAPTER K text of
             Some cm \<Rightarrow>
               Inr (Continue (st\<lparr>
                 chapters_data := chapters_data st @
                   [get_chapter_data (current_id st) cm (supreme_chapter_id st)],
                 current_id := current_id st + 1,
                 index := index st + 1\<rparr>))
           | None \<Rightarrow>
               (case RE_TASK K text of
                  Some task_match \<Rightarrow>
                    bindE (previous_id_of (tasks_data st) task_match) (\<lambda>previous_id.
                      bindE (last_elem (chapters_data st)) (\<lambda>c.
                        bindE (get_task_data task_match (id_chapter c) previous_id False) (\<lambda>t.
                          bindE (find_next_task K data (tasks_data st @ [t])
                                   (index st + 1) previous_id (id_chapter c))
                            (\<lambda>(i, tasks).
                              Inr (Continue (st\<lparr>tasks_data := tasks, index := i\<rparr>))))))
                | None \<Rightarrow>
                    if text = answers_title then
                      (case collect_answers K data (index st + 1) (answers_text st) of
                         (i, answers) \<Rightarrow> Inr (Break (st\<lparr>answers_text := answers, index := i\<rparr>)))
                    else
                      Inl (ValueError
                        (ustr ''index:'' @ str_nat (index st) @ ustr ''    '' @ text)))))"

lemma find_next_task_index:
  "find_next_task K data tasks i prev p = Inr (j, ts) \<Longrightarrow> i \<le> j \<and> j < length data"
proof (induction K data tasks i prev p rule: find_next_task.induct)
  case (1 K data tasks next_index previous_id p)
  from "1.prems" have inside: "next_index < length data"
    by (subst (asm) find_next_task.simps) (simp split: if_splits)
  show ?case
  proof (cases "RE_TASK K (data ! next_index)")
    case None
    with "1.prems" inside show ?thesis
      by (subst (asm) find_next_task.simps) simp
  next
    case (Some task_match)
    show ?thesis
    proof (cases "RE_SUPREME_CHAPTER K (data ! next_index)")
      case (Some sm)
      with "1.prems" inside \<open>RE_TASK K (data ! next_index) = Some task_match\<close> show ?thesis
        by (subst (asm) find_next_task.simps) simp
    next
      case None
      from "1.prems" inside None \<open>RE_TASK K (data ! next_index) = Some task_match\<close>
      obtain t where t: "get_task_data task_match p previous_id False = Inr t"
        and rec: "find_next_task K data (tasks @ [t]) (next_index + 1) previous_id p = Inr (j, ts)"
        by (subst (asm) find_next_task.simps) (auto split: sum.splits)
      from "1.IH" [OF _ \<open>RE_TASK K (data ! next_index) = Some task_match\<close> None t rec] inside
      show ?thesis by simp
    qed
  qed
qed

lemma parser_step_advances:
  assumes "parser_step K data st = Inr (Continue st')"
  shows "index st < index st'"
  using assms unfolding parser_step_def Let_def find_next_chapter_def
  by (auto elim!: bindE_Inr_E dest!: find_next_task_index
      split: option.splits if_splits prod.splits)

text \<open>The main loop \<open>while index < len(data)\<close>.\<close>

function parser_loop :: "constants \<Rightarrow> ustring list \<Rightarrow> pstate \<Rightarrow> pyerror + pstate" where
  "parser_loop K data st =
     (if index st < length data then
        (case parser_step K data st of
           Inl e \<Rightarrow> Inl e
         | Inr (Continue st') \<Rightarrow> parser_loop K data st'
         | Inr (Break st') \<Rightarrow> Inr st')
      else Inr st)"
  by pat_completeness auto
termination
proof (relation "measure (\<lambda>(K, data, st). length data - index st)")
  show "wf (measure (\<lambda>(K, data, st). length data - index st))"
    by simp
next
  fix K :: constants and data :: "ustring list" and st :: pstate and x2 st'
  assume "index st < length data" and "parser_step K data st = Inr x2" and "x2 = Continue st'"
  then have "index st < index st'"
    using parser_step_advances [of K data st st'] by simp
  with \<open>index st < length data\<close>
  show "((K, data, st'), K, data, st) \<in> measure (\<lambda>(K, data, st). length data - index st)"
    by auto
qed

declare parser_loop.simps [simp del]

text \<open>
  The static author record of the source (its keys \<open>name\<close>, \<open>description\<close>,
  \<open>topic_id\<close> and \<open>classes\<close>), the two texts as code points.
\<close>

record author_data =
  author_name :: ustring
  author_description :: ustring
  author_topic_id :: int
  author_classes :: ustring

definition authors_data :: "author_data list" where
  "authors_data =
     [\<lparr>author_name =
     [0x422, 0x435, 0x43A, 0x441, 0x442, 0x43E, 0x432, 0x44B, 0x435, 0x20, 0x437, 0x430,
      0x434, 0x430, 0x447, 0x438, 0x20, 0x43F, 0x43E, 0x20, 0x43C, 0x430, 0x442, 0x435,
      0x43C, 0x430, 0x442, 0x438, 0x43A, 0x435, 0x2E, 0x20, 0x35, 0x2013, 0x36, 0x20,
      0x43A, 0x43B, 0x430, 0x441, 0x441, 0x44B, 0x20, 0x2F, 0x20, 0x410, 0x2E, 0x20,
      0x412, 0x2E, 0x20, 0x428, 0x435, 0x432, 0x43A, 0x438, 0x43D, 0x2E, 0x20, 0x2014,
      0x20, 0x33, 0x2D, 0x435, 0x20, 0x438, 0x437, 0x434, 0x2E, 0x2C, 0x20, 0x43F,
      0x435, 0x440, 0x435, 0x440, 0x430, 0x431, 0x2E, 0x20, 0x2014, 0x20, 0x41C, 0x2E,
      0x20, 0x3A, 0x20, 0x418, 0x43B, 0x435, 0x43A, 0x441, 0x430, 0x2C, 0x20, 0x32,
      0x30, 0x32, 0x34, 0x2E, 0x20, 0x2014, 0x20, 0x31, 0x36, 0x30, 0x20, 0x441,
      0x2E, 0x20, 0x3A, 0x20, 0x438, 0x43B, 0x2E],
       author_description =
     [0x421, 0x431, 0x43E, 0x440, 0x43D, 0x438, 0x43A, 0x20, 0x432, 0x43A, 0x43B, 0x44E,
      0x447, 0x430, 0x435, 0x442, 0x20, 0x442, 0x435, 0x43A, 0x441, 0x442, 0x43E, 0x432,
      0x44B, 0x435, 0x20, 0x437, 0x430, 0x434, 0x430, 0x447, 0x438, 0x20, 0x43F, 0x43E,
      0x20, 0x440, 0x430, 0x437, 0x434, 0x435, 0x43B, 0x430, 0x43C, 0x20, 0x448, 0x43A,
      0x43E, 0x43B, 0x44C, 0x43D, 0x43E, 0x439, 0x20, 0x43C, 0x430, 0x442, 0x435, 0x43C,
      0x430, 0x442, 0x438, 0x43A, 0x438, 0x3A, 0x20, 0x43D, 0x430, 0x442, 0x443, 0x440,
      0x430, 0x43B, 0x44C, 0x43D, 0x44B, 0x435, 0x20, 0x447, 0x438, 0x441, 0x43B, 0x430,
      0x2C, 0x20, 0x434, 0x440, 0x43E, 0x431, 0x438, 0x2C, 0x20, 0x43F, 0x440, 0x43E,
      0x43F, 0x43E, 0x440, 0x446, 0x438, 0x438, 0x2C, 0x20, 0x43F, 0x440, 0x43E, 0x446,
      0x435, 0x43D, 0x442, 0x44B, 0x2C, 0x20, 0x443, 0x440, 0x430, 0x432, 0x43D, 0x435,
      0x43D, 0x438, 0x44F, 0x2E, 0x20, 0x41A, 0x43E, 0x20, 0x43C, 0x43D, 0x43E, 0x433,
      0x438, 0x43C, 0x20, 0x437, 0x430, 0x434, 0x430, 0x447, 0x430, 0x43C, 0x20, 0x434,
      0x430, 0x43D, 0x44B, 0x20, 0x43E, 0x442, 0x432, 0x435, 0x442, 0x44B, 0x20, 0x438,
      0x43B, 0x438, 0x20, 0x441, 0x43E, 0x432, 0x435, 0x442, 0x44B, 0x20, 0x441, 0x20,
      0x447, 0x435, 0x433, 0x43E, 0x20, 0x43D, 0x430, 0x447, 0x430, 0x442, 0x44C, 0x20,
      0x440, 0x435, 0x448, 0x435, 0x43D, 0x438, 0x44F, 0x2E, 0x20, 0x420, 0x435, 0x448,
      0x435, 0x43D, 0x438, 0x44F, 0x20, 0x43D, 0x435, 0x43A, 0x43E, 0x442, 0x43E, 0x440,
      0x44B, 0x445, 0x20, 0x437, 0x430, 0x434, 0x430, 0x447, 0x20, 0x43F, 0x440, 0x438,
      0x432, 0x435, 0x434, 0x435, 0x43D, 0x44B, 0x20, 0x432, 0x20, 0x43A, 0x430, 0x447,
      0x435, 0x441, 0x442, 0x432, 0x435, 0x20, 0x43E, 0x431, 0x440, 0x430, 0x437, 0x446,
      0x43E, 0x432, 0x20, 0x432, 0x20, 0x43E, 0x441, 0x43D, 0x43E, 0x432, 0x43D, 0x43E,
      0x43C, 0x20, 0x442, 0x435, 0x43A, 0x441, 0x442, 0x435, 0x20, 0x43A, 0x43D, 0x438,
      0x433, 0x438, 0x20, 0x438, 0x43B, 0x438, 0x20, 0x432, 0x20, 0x440, 0x430, 0x437,
      0x434, 0x435, 0x43B, 0x435, 0x20, 0xAB, 0x41E, 0x442, 0x432, 0x435, 0x442, 0x44B,
      0x2C, 0x20, 0x441, 0x43E, 0x432, 0x435, 0x442, 0x44B, 0x2C, 0x20, 0x440, 0x435,
      0x448, 0x435, 0x43D, 0x438, 0x44F, 0xBB, 0x2E, 0x20, 0x41C, 0x430, 0x442, 0x435,
      0x440, 0x438, 0x430, 0x43B, 0x44B, 0x20, 0x441, 0x431, 0x43E, 0x440, 0x43D, 0x438,
      0x43A, 0x430, 0x20, 0x43C, 0x43E, 0x436, 0x43D, 0x43E, 0x20, 0x438, 0x441, 0x43F,
      0x43E, 0x43B, 0x44C, 0x437, 0x43E, 0x432, 0x430, 0x442, 0x44C, 0x20, 0x43A, 0x430,
      0x43A, 0x20, 0x434, 0x43E, 0x43F, 0x43E, 0x43B, 0x43D, 0x435, 0x43D, 0x438, 0x435,
      0x20, 0x43A, 0x20, 0x43B, 0x44E, 0x431, 0x43E, 0x43C, 0x443, 0x20, 0x434, 0x435,
      0x439, 0x441, 0x442, 0x432, 0x443, 0x44E, 0x449, 0x435, 0x43C, 0x443, 0x20, 0x443,
      0x447, 0x435, 0x431, 0x43D, 0x438, 0x43A, 0x443, 0x2E, 0x20, 0x41F, 0x440, 0x438,
      0x20, 0x43F, 0x43E, 0x434, 0x433, 0x43E, 0x442, 0x43E, 0x432, 0x43A, 0x435, 0x20,
      0x44D, 0x442, 0x43E, 0x433, 0x43E, 0x20, 0x438, 0x437, 0x434, 0x430, 0x43D, 0x438,
      0x44F, 0x20, 0x434, 0x43E, 0x431, 0x430, 0x432, 0x43B, 0x435, 0x43D, 0x44B, 0x20,
      0x43D, 0x43E, 0x432, 0x44B, 0x435, 0x20, 0x437, 0x430, 0x434, 0x430, 0x447, 0x438,
      0x20, 0x438, 0x20, 0x440, 0x435, 0x448, 0x435, 0x43D, 0x438, 0x44F, 0x20, 0x43D,
      0x435, 0x43A, 0x43E, 0x442, 0x43E, 0x440, 0x44B, 0x445, 0x20, 0x437, 0x430, 0x434,
      0x430, 0x447, 0x2E, 0x20, 0x41F, 0x43E, 0x441, 0x43E, 0x431, 0x438, 0x435, 0x20,
      0x43F, 0x440, 0x435, 0x434, 0x43D, 0x430, 0x437, 0x43D, 0x430, 0x447, 0x435, 0x43D,
      0x43E, 0x20, 0x434, 0x43B, 0x44F, 0x20, 0x443, 0x447, 0x430, 0x449, 0x438, 0x445,
      0x441, 0x44F, 0x20, 0x35, 0x2013, 0x36, 0x20, 0x43A, 0x43B, 0x430, 0x441, 0x441,
      0x43E, 0x432, 0x20, 0x43E, 0x431, 0x449, 0x435, 0x43E, 0x431, 0x440, 0x430, 0x437,
      0x43E, 0x432, 0x430, 0x442, 0x435, 0x43B, 0x44C, 0x43D, 0x44B, 0x445, 0x20, 0x448,
      0x43A, 0x43E, 0x43B, 0x2C, 0x20, 0x443, 0x447, 0x438, 0x442, 0x435, 0x43B, 0x435,
      0x439, 0x2C, 0x20, 0x441, 0x442, 0x443, 0x434, 0x435, 0x43D, 0x442, 0x43E, 0x432,
      0x20, 0x43F, 0x435, 0x434, 0x430, 0x433, 0x43E, 0x433, 0x438, 0x447, 0x435, 0x441,
      0x43A, 0x438, 0x445, 0x20, 0x432, 0x443, 0x437, 0x43E, 0x432, 0x2E],
       author_topic_id = 1,
       author_classes = ustr ''5;6''\<rparr>]"

definition initial_state :: pstate where
  "initial_state =
     \<lparr>chapters_data = [], tasks_data = [], answers_text = [], index = 0,
      current_chapter = 0, supreme_chapter_id = 0, current_id = 1\<rparr>"

text \<open>
  \<open>parser(doc)\<close>, the document being the texts of its paragraphs in order: each is
  stripped, the main loop runs, and the answers are reconciled when the answers
  section gave any text.
\<close>

definition parser ::
  "constants \<Rightarrow> ustring list
     \<Rightarrow> pyerror + (task_data list \<times> chapter_data list \<times> author_data list)" where
  "parser K doc =
     (let data = map strip doc in
      bindE (parser_loop K data initial_state) (\<lambda>st.
        if answers_text st \<noteq> [] then
          bindE (answer_parser K (answers_text st) (tasks_data st)) (\<lambda>tasks.
            Inr (tasks, chapters_data st, authors_data))
        else Inr (tasks_data st, chapters_data st, authors_data)))"

section \<open>The states of the main loop\<close>

text \<open>
  \<open>loop_state K data n\<close> is the state in which the main loop of \<open>parser\<close> starts its
  pass number \<open>n\<close> (counted from 0), when it gets that far: the paragraphs the cursor
  stands on at these moments are the top-level paragraphs of the document.
  \<open>answers_block K data i\<close> are the paragraphs from position \<open>i\<close> up to the first one
  whose lowercased and stripped text is the contents title, or up to the end.
\<close>

fun loop_state :: "constants \<Rightarrow> ustring list \<Rightarrow> nat \<Rightarrow> pstate option" where
  "loop_state K data 0 = Some initial_state"
| "loop_state K data (Suc n) =
     (case loop_state K data n of
        None \<Rightarrow> None
      | Some st \<Rightarrow>
          if index st < length data then
            (case parser_step K data st of
               Inr (Continue st') \<Rightarrow> Some st'
             | _ \<Rightarrow> None)
          else None)"

definition answers_block :: "constants \<Rightarrow> ustring list \<Rightarrow> nat \<Rightarrow> ustring list" where
  "answers_block K data i =
     takeWhile (\<lambda>t. strip (PY_lower K t) \<noteq> contents_title) (drop i data)"

lemma loop_state_Suc_E:
  assumes "loop_state K data (Suc n) = Some st'"
  obtains st where "loop_state K data n = Some st" and "index st < length data"
    and "parser_step K data st = Inr (Continue st')"
  using assms by (auto split: option.splits if_splits sum.splits ctl.splits)

lemma parser_loop_from_state:
  "loop_state K data n = Some st \<Longrightarrow> parser_loop K data initial_state = parser_loop K data st"
proof (induction n arbitrary: st)
  case 0
  then show ?case by simp
next
  case (Suc n)
  from Suc.prems obtain st0 where st0: "loop_state K data n = Some st0"
    and inside: "index st0 < length data"
    and step: "parser_step K data st0 = Inr (Continue st)"
    by (rule loop_state_Suc_E)
  have "parser_loop K data st0 = parser_loop K data st"
    using inside step by (subst parser_loop.simps) simp
  with Suc.IH [OF st0] show ?case by simp
qed

lemma parser_step_answers_text:
  "parser_step K data st = Inr (Continue st') \<Longrightarrow> answers_text st' = answers_text st"
  unfolding parser_step_def Let_def
  by (auto elim!: bindE_Inr_E split: option.splits if_splits prod.splits)

lemma loop_state_answers_text: "loop_state K data n = Some st \<Longrightarrow> answers_text st = []"
proof (induction n arbitrary: st)
  case 0
  then show ?case by (auto simp: initial_state_def)
next
  case (Suc n)
  from Suc.prems obtain st0 where "loop_state K data n = Some st0"
    and "parser_step K data st0 = Inr (Continue st)"
    by (rule loop_state_Suc_E)
  with Suc.IH [of st0] show ?case
    by (simp add: parser_step_answers_text)
qed

lemma collect_answers_takeWhile:
  "collect_answers K data i acc =
     (i + length (answers_block K data i), acc @ answers_block K data i)"
proof (induction K data i acc rule: collect_answers.induct)
  case (1 K data i answers)
  show ?case
  proof (cases "i < length data")
    case False
    then show ?thesis
      by (subst collect_answers.simps) (simp add: answers_block_def)
  next
    case True
    then have d: "drop i data = data ! i # drop (Suc i) data"
      by (simp add: Cons_nth_drop_Suc)
    show ?thesis
    proof (cases "strip (PY_lower K (data ! i)) = contents_title")
      case stop: True
      with True d show ?thesis
        by (subst collect_answers.simps) (simp add: answers_block_def)
    next
      case go: False
      with True d "1.IH" [OF True go] show ?thesis
        by (subst collect_answers.simps) (simp add: answers_block_def)
    qed
  qed
qed

section \<open>What a pass of the main loop changes\<close>

lemma get_task_data_paragraph:
  "get_task_data m p prev e = Inr t \<Longrightarrow> paragraph_id t = p"
  by (auto simp: get_task_data_def new_task_def split: if_splits option.splits)

lemma get_task_data_implicit:
  assumes "get_task_data m p previous False = Inr t" and "group m 1 = None"
  shows "\<exists>prev g4. previous = Some prev \<and> group m 4 = Some g4 \<and>
           id_tasks_book t = butlast ((if endswith_dot prev then prev else prev @ [0x2E]) @ g4)"
  using assms by (auto simp: get_task_data_def new_task_def split: option.splits)

lemma find_next_task_run:
  "find_next_task K data tasks i prev p = Inr (j, ts) \<Longrightarrow>
   \<exists>new. ts = tasks @ new \<and> j = i + length new \<and>
     (\<forall>k<length new. \<exists>m. RE_TASK K (data ! (i + k)) = Some m \<and>
        get_task_data m p prev False = Inr (new ! k))"
proof (induction K data tasks i prev p rule: find_next_task.induct)
  case (1 K data tasks next_index previous_id p)
  from "1.prems" have inside: "next_index < length data"
    by (subst (asm) find_next_task.simps) (simp split: if_splits)
  show ?case
  proof (cases "RE_TASK K (data ! next_index)")
    case None
    with "1.prems" inside have "j = next_index" and "ts = tasks"
      by (subst (asm) find_next_task.simps, simp)+
    then show ?thesis by simp
  next
    case (Some task_match)
    show ?thesis
    proof (cases "RE_SUPREME_CHAPTER K (data ! next_index)")
      case (Some sm)
      with "1.prems" inside \<open>RE_TASK K (data ! next_index) = Some task_match\<close>
      have "j = next_index" and "ts = tasks"
        by (subst (asm) find_next_task.simps, simp)+
      then show ?thesis by simp
    next
      case None
      from "1.prems" inside None \<open>RE_TASK K (data ! next_index) = Some task_match\<close>
      obtain t where t: "get_task_data task_match p previous_id False = Inr t"
        and rec: "find_next_task K data (tasks @ [t]) (next_index + 1) previous_id p = Inr (j, ts)"
        by (subst (asm) find_next_task.simps) (auto split: sum.splits)
      from "1.IH" [OF _ \<open>RE_TASK K (data ! next_index) = Some task_match\<close> None t rec] inside
      obtain new where ts: "ts = (tasks @ [t]) @ new" and j: "j = next_index + 1 + length new"
        and each: "\<forall>k<length new. \<exists>m. RE_TASK K (data ! (next_index + 1 + k)) = Some m \<and>
              get_task_data m p previous_id False = Inr (new ! k)"
        by auto
      have "\<forall>k<length (t # new). \<exists>m. RE_TASK K (data ! (next_index + k)) = Some m \<and>
              get_task_data m p previous_id False = Inr ((t # new) ! k)"
      proof (intro allI impI)
        fix k assume k: "k < length (t # new)"
        show "\<exists>m. RE_TASK K (data ! (next_index + k)) = Some m \<and>
                get_task_data m p previous_id False = Inr ((t # new) ! k)"
        proof (cases k)
          case 0
          with t \<open>RE_TASK K (data ! next_index) = Some task_match\<close> show ?thesis by simp
        next
          case (Suc k')
          with k each show ?thesis by simp
        qed
      qed
      with ts j show ?thesis
        by (intro exI [of _ "t # new"]) simp
    qed
  qed
qed

lemma find_next_task_paragraphs:
  assumes "find_next_task K data tasks i prev p = Inr (j, ts)"
  shows "\<exists>new. ts = tasks @ new \<and> (\<forall>t\<in>set new. paragraph_id t = p)"
proof -
  from find_next_task_run [OF assms] obtain new where ts: "ts = tasks @ new"
    and each: "\<forall>k<length new. \<exists>m. RE_TASK K (data ! (i + k)) = Some m \<and>
        get_task_data m p prev False = Inr (new ! k)"
    by blast
  have "\<forall>t\<in>set new. paragraph_id t = p"
  proof
    fix t assume "t \<in> set new"
    then obtain k where "k < length new" and "new ! k = t"
      by (auto simp: in_set_conv_nth)
    with each show "paragraph_id t = p"
      by (auto dest: get_task_data_paragraph)
  qed
  with ts show ?thesis by blast
qed

lemma parser_step_effect:
  assumes "parser_step K data st = Inr r"
  obtains
    (supreme_and_sub) st' sm cm where "r = Continue st'"
      and "chapters_data st' = chapters_data st @
             [get_chapter_data (current_id st) sm 0,
              get_chapter_data (current_id st + 1) cm (current_id st)]"
      and "supreme_chapter_id st' = current_id st" and "current_id st' = current_id st + 2"
      and "tasks_data st' = tasks_data st"
  | (supreme) st' sm where "r = Continue st'"
      and "chapters_data st' = chapters_data st @ [get_chapter_data (current_id st) sm 0]"
      and "supreme_chapter_id st' = current_id st" and "current_id st' = current_id st + 1"
      and "tasks_data st' = tasks_data st"
  | (sub) st' cm where "r = Continue st'"
      and "chapters_data st' = chapters_data st @
             [get_chapter_data (current_id st) cm (supreme_chapter_id st)]"
      and "supreme_chapter_id st' = supreme_chapter_id st"
      and "current_id st' = current_id st + 1"
      and "tasks_data st' = tasks_data st"
  | (tasks) st' new where "r = Continue st'" and "chapters_data st \<noteq> []"
      and "chapters_data st' = chapters_data st"
      and "supreme_chapter_id st' = supreme_chapter_id st"
      and "current_id st' = current_id st"
      and "tasks_data st' = tasks_data st @ new"
      and "\<forall>t\<in>set new. paragraph_id t = id_chapter (last (chapters_data st))"
  | (break) st' where "r = Break st'"
      and "chapters_data st' = chapters_data st"
      and "supreme_chapter_id st' = supreme_chapter_id st"
      and "current_id st' = current_id st"
      and "tasks_data st' = tasks_data st"
proof (cases "RE_SUPREME_CHAPTER K (data ! index st)")
  case None
  show ?thesis
  proof (cases "RE_CHAPTER K (data ! index st)")
    case (Some cm)
    with None assms have "r = Continue (st\<lparr>
        chapters_data := chapters_data st @
          [get_chapter_data (current_id st) cm (supreme_chapter_id st)],
        current_id := current_id st + 1, index := index st + 1\<rparr>)"
      by (simp add: parser_step_def Let_def)
    then show ?thesis by (rule sub) simp_all
  next
    case noch: None
    show ?thesis
    proof (cases "RE_TASK K (data ! index st)")
      case (Some tm)
      with None noch assms obtain previous_id c t i ts where
        "last_elem (chapters_data st) = Inr c"
        and t: "get_task_data tm (id_chapter c) previous_id False = Inr t"
        and f: "find_next_task K data (tasks_data st @ [t]) (index st + 1) previous_id
                  (id_chapter c) = Inr (i, ts)"
        and r: "r = Continue (st\<lparr>tasks_data := ts, index := i\<rparr>)"
        by (auto simp: parser_step_def Let_def elim!: bindE_Inr_E)
      then have ne: "chapters_data st \<noteq> []" and c: "c = last (chapters_data st)"
        by (auto simp: last_elem_def split: if_splits)
      from find_next_task_paragraphs [OF f] obtain new where
        "ts = (tasks_data st @ [t]) @ new" and "\<forall>x\<in>set new. paragraph_id x = id_chapter c"
        by blast
      with get_task_data_paragraph [OF t] c ne show ?thesis
        by (intro tasks [OF r, of "t # new"]) auto
    next
      case notask: None
      with None noch assms have "r = Break (st\<lparr>
          answers_text := snd (collect_answers K data (index st + 1) (answers_text st)),
          index := fst (collect_answers K data (index st + 1) (answers_text st))\<rparr>)"
        by (auto simp: parser_step_def Let_def split: if_splits prod.splits)
      then show ?thesis by (rule break) simp_all
    qed
  qed
next
  case (Some sm)
  with assms obtain g1 n where g1: "group sm 1 = Some g1" and n: "PY_int K (butlast g1) = Inr n"
    by (auto simp: parser_step_def Let_def elim!: bindE_Inr_E split: option.splits)
  show ?thesis
  proof (cases "n = current_chapter st + 1 \<and> RE_TASK K (data ! index st) = None")
    case True
    show ?thesis
    proof (cases "RE_CHAPTER K (data ! (index st + 1))")
      case None
      with True Some g1 n assms have "r = Continue (st\<lparr>
          chapters_data := chapters_data st @ [get_chapter_data (current_id st) sm 0],
          supreme_chapter_id := current_id st, current_id := current_id st + 1,
          current_chapter := n, index := index st + 1\<rparr>)"
        by (auto simp: parser_step_def Let_def find_next_chapter_def split: if_splits)
      then show ?thesis by (rule supreme) simp_all
    next
      case (Some cm)
      with True \<open>RE_SUPREME_CHAPTER K (data ! index st) = Some sm\<close> g1 n assms
      have "r = Continue (st\<lparr>
          chapters_data := chapters_data st @
            [get_chapter_data (current_id st) sm 0,
             get_chapter_data (current_id st + 1) cm (current_id st)],
          supreme_chapter_id := current_id st, current_id := current_id st + 2,
          current_chapter := n, index := index st + 1 + 1\<rparr>)"
        by (auto simp: parser_step_def Let_def find_next_chapter_def split: if_splits)
      then show ?thesis by (rule supreme_and_sub) simp_all
    qed
  next
    case False
    show ?thesis
    proof (cases "RE_CHAPTER K (data ! index st)")
      case (Some cm)
      with \<open>RE_SUPREME_CHAPTER K (data ! index st) = Some sm\<close> g1 n False assms
      have "r = Continue (st\<lparr>
          chapters_data := chapters_data st @
            [get_chapter_data (current_id st) cm (supreme_chapter_id st)],
          current_id := current_id st + 1, index := index st + 1\<rparr>)"
        by (auto simp: parser_step_def Let_def)
      then show ?thesis by (rule sub) simp_all
    next
      case noch: None
      from \<open>RE_SUPREME_CHAPTER K (data ! index st) = Some sm\<close> g1 n False noch assms
      obtain c where lc: "last_elem (chapters_data st) = Inr c"
        by (auto simp: parser_step_def Let_def elim!: bindE_Inr_E)
      then have ne: "chapters_data st \<noteq> []" and c: "c = last (chapters_data st)"
        by (auto simp: last_elem_def split: if_splits)
      show ?thesis
      proof (cases "RE_TASK K (data ! index st)")
        case (Some tm)
        with \<open>RE_SUPREME_CHAPTER K (data ! index st) = Some sm\<close> g1 n False noch lc assms
        obtain previous_id t i ts where
          t: "get_task_data tm (id_chapter c) previous_id False = Inr t"
          and f: "find_next_task K data (tasks_data st @ [t]) (index st + 1) (group tm 1)
                    (id_chapter c) = Inr (i, ts)"
          and r: "r = Continue (st\<lparr>tasks_data := ts, index := i\<rparr>)"
          by (auto simp: parser_step_def Let_def elim!: bindE_Inr_E)
        from find_next_task_paragraphs [OF f] obtain new where
          "ts = (tasks_data st @ [t]) @ new" and "\<forall>x\<in>set new. paragraph_id x = id_chapter c"
          by blast
        with get_task_data_paragraph [OF t] c ne show ?thesis
          by (intro tasks [OF r, of "t # new"]) auto
      next
        case notask: None
        with \<open>RE_SUPREME_CHAPTER K (data ! index st) = Some sm\<close> g1 n False noch lc assms
        obtain t where t: "get_task_data sm (id_chapter c) None True = Inr t"
          and r: "r = Continue (st\<lparr>tasks_data := tasks_data st @ [t], index := index st + 1\<rparr>)"
          by (auto simp: parser_step_def Let_def elim!: bindE_Inr_E)
        with get_task_data_paragraph [OF t] c ne show ?thesis
          by (intro tasks [OF r, of "[t]"]) auto
      qed
    qed
  qed
qed

fun ctl_state :: "'a ctl \<Rightarrow> 'a" where
  "ctl_state (Continue s) = s"
| "ctl_state (Break s) = s"

definition chapters_ok :: "chapter_data list \<Rightarrow> bool" where
  "chapters_ok cs \<longleftrightarrow>
     (\<forall>k<length cs. id_chapter (cs ! k) = int k + 1 \<and>
        (parent (cs ! k) = 0 \<or> (\<exists>j<k. id_chapter (cs ! j) = parent (cs ! k))))"

definition chapter_inv :: "pstate \<Rightarrow> bool" where
  "chapter_inv st \<longleftrightarrow>
     chapters_ok (chapters_data st) \<and>
     current_id st = int (length (chapters_data st)) + 1 \<and>
     0 \<le> supreme_chapter_id st \<and> supreme_chapter_id st \<le> int (length (chapters_data st))"

definition tasks_ok :: "task_data list \<Rightarrow> chapter_data list \<Rightarrow> bool" where
  "tasks_ok ts cs \<longleftrightarrow> (\<forall>t\<in>set ts. \<exists>c\<in>set cs. paragraph_id t = id_chapter c)"

lemma get_chapter_data_fields [simp]:
  "id_chapter (get_chapter_data i m p) = i"
  "parent (get_chapter_data i m p) = p"
  by (simp_all add: get_chapter_data_def)

lemma chapters_ok_append:
  assumes "chapters_ok cs" and "0 \<le> p" and "p \<le> int (length cs)"
  shows "chapters_ok (cs @ [get_chapter_data (int (length cs) + 1) m p])"
  unfolding chapters_ok_def
proof (intro allI impI)
  let ?c = "get_chapter_data (int (length cs) + 1) m p"
  let ?cs = "cs @ [?c]"
  fix k assume k: "k < length ?cs"
  show "id_chapter (?cs ! k) = int k + 1 \<and>
        (parent (?cs ! k) = 0 \<or> (\<exists>j<k. id_chapter (?cs ! j) = parent (?cs ! k)))"
  proof (cases "k < length cs")
    case True
    then have nk: "?cs ! k = cs ! k"
      by (simp add: nth_append)
    from assms(1) True have idk: "id_chapter (cs ! k) = int k + 1"
      and par: "parent (cs ! k) = 0 \<or> (\<exists>j<k. id_chapter (cs ! j) = parent (cs ! k))"
      unfolding chapters_ok_def by blast+
    from par have "parent (cs ! k) = 0 \<or> (\<exists>j<k. id_chapter (?cs ! j) = parent (cs ! k))"
    proof
      assume "parent (cs ! k) = 0"
      then show ?thesis ..
    next
      assume "\<exists>j<k. id_chapter (cs ! j) = parent (cs ! k)"
      then obtain j where j: "j < k" and "id_chapter (cs ! j) = parent (cs ! k)"
        by blast
      with True have "id_chapter (?cs ! j) = parent (cs ! k)"
        by (simp add: nth_append)
      with j show ?thesis by blast
    qed
    with nk idk show ?thesis by simp
  next
    case False
    with k have keq: "k = length cs" by simp
    then have nk: "?cs ! k = ?c" by simp
    show ?thesis
    proof (cases "p = 0")
      case True
      with keq nk show ?thesis by simp
    next
      case False
      with assms(2,3) have j: "nat p - 1 < length cs" and p: "int (nat p - 1) + 1 = p"
        by linarith+
      from assms(1) j have "id_chapter (cs ! (nat p - 1)) = int (nat p - 1) + 1"
        unfolding chapters_ok_def by blast
      with p j have "id_chapter (?cs ! (nat p - 1)) = p"
        by (simp add: nth_append)
      with j keq have "\<exists>j<k. id_chapter (?cs ! j) = p"
        by blast
      with keq nk show ?thesis by simp
    qed
  qed
qed

lemma parser_step_chapter_inv:
  assumes "chapter_inv st" and "parser_step K data st = Inr r"
  shows "chapter_inv (ctl_state r)"
  using assms(2)
proof (cases rule: parser_step_effect)
  case (supreme_and_sub st' sm cm)
  from assms(1) have ok: "chapters_ok (chapters_data st)"
    and cid: "current_id st = int (length (chapters_data st)) + 1"
    by (simp_all add: chapter_inv_def)
  have "chapters_ok (chapters_data st @ [get_chapter_data (current_id st) sm 0])"
    using chapters_ok_append [OF ok, of 0 sm] cid by simp
  from chapters_ok_append [OF this, of "current_id st" cm] cid
  have "chapters_ok (chapters_data st')"
    using supreme_and_sub by (simp add: add.commute)
  with supreme_and_sub cid show ?thesis
    by (simp add: chapter_inv_def)
next
  case (supreme st' sm)
  from assms(1) have ok: "chapters_ok (chapters_data st)"
    and cid: "current_id st = int (length (chapters_data st)) + 1"
    by (simp_all add: chapter_inv_def)
  have "chapters_ok (chapters_data st @ [get_chapter_data (current_id st) sm 0])"
    using chapters_ok_append [OF ok, of 0 sm] cid by simp
  with supreme cid show ?thesis
    by (simp add: chapter_inv_def)
next
  case (sub st' cm)
  from assms(1) have ok: "chapters_ok (chapters_data st)"
    and cid: "current_id st = int (length (chapters_data st)) + 1"
    and sid: "0 \<le> supreme_chapter_id st" "supreme_chapter_id st \<le> int (length (chapters_data st))"
    by (simp_all add: chapter_inv_def)
  have "chapters_ok (chapters_data st @
      [get_chapter_data (current_id st) cm (supreme_chapter_id st)])"
    using chapters_ok_append [OF ok sid, of cm] cid by simp
  with sub cid sid show ?thesis
    by (simp add: chapter_inv_def)
next
  case (tasks st' new)
  with assms(1) show ?thesis by (simp add: chapter_inv_def)
next
  case (break st')
  with assms(1) show ?thesis by (simp add: chapter_inv_def)
qed

lemma tasks_ok_mono: "tasks_ok ts cs \<Longrightarrow> tasks_ok ts (cs @ cs')"
  by (auto simp: tasks_ok_def)

lemma parser_step_tasks_ok:
  assumes "tasks_ok (tasks_data st) (chapters_data st)" and "parser_step K data st = Inr r"
  shows "tasks_ok (tasks_data (ctl_state r)) (chapters_data (ctl_state r))"
  using assms(2)
proof (cases rule: parser_step_effect)
  case (supreme_and_sub st' sm cm)
  with tasks_ok_mono [OF assms(1)] show ?thesis by simp
next
  case (supreme st' sm)
  with tasks_ok_mono [OF assms(1)] show ?thesis by simp
next
  case (sub st' cm)
  with tasks_ok_mono [OF assms(1)] show ?thesis by simp
next
  case (tasks st' new)
  then have "\<forall>t\<in>set new. \<exists>c\<in>set (chapters_data st). paragraph_id t = id_chapter c"
    by (auto intro!: bexI [of _ "last (chapters_data st)"])
  with assms(1) tasks show ?thesis
    by (auto simp: tasks_ok_def)
next
  case (break st')
  with assms(1) show ?thesis by simp
qed

lemma parser_loop_invariant:
  "(\<And>s r. P s \<Longrightarrow> parser_step K data s = Inr r \<Longrightarrow> P (ctl_state r)) \<Longrightarrow>
   P st \<Longrightarrow> parser_loop K data st = Inr st' \<Longrightarrow> P st'"
proof (induction K data st rule: parser_loop.induct)
  case (1 K data st)
  note step = "1.prems"(1)
  note start = "1.prems"(2)
  note run = "1.prems"(3)
  show ?case
  proof (cases "index st < length data")
    case False
    with start run show ?thesis
      by (subst (asm) parser_loop.simps) simp
  next
    case True
    with run obtain r where r: "parser_step K data st = Inr r"
      by (subst (asm) parser_loop.simps) (auto split: sum.splits)
    from step [OF start r] have P: "P (ctl_state r)" .
    show ?thesis
    proof (cases r)
      case (Continue s)
      with True r run have "parser_loop K data s = Inr st'"
        by (subst (asm) parser_loop.simps) simp
      from "1.IH" [OF True r Continue step _ this] P Continue show ?thesis
        by simp
    next
      case (Break s)
      with True r run have "s = st'"
        by (subst (asm) parser_loop.simps) simp
      with P Break show ?thesis by simp
    qed
  qed
qed

lemma loop_state_invariant:
  assumes step: "\<And>s r. P s \<Longrightarrow> parser_step K data s = Inr r \<Longrightarrow> P (ctl_state r)"
    and "P initial_state"
  shows "loop_state K data n = Some st \<Longrightarrow> P st"
proof (induction n arbitrary: st)
  case 0
  with assms(2) show ?case by simp
next
  case (Suc n)
  from Suc.prems obtain st0 where "loop_state K data n = Some st0"
    and s: "parser_step K data st0 = Inr (Continue st)"
    by (rule loop_state_Suc_E)
  with Suc.IH have "P st0" by simp
  from step [OF this s] show ?case by simp
qed

lemma set_answer_frame:
  "map (\<lambda>t. t\<lparr>answer := None\<rparr>) (set_answer ts i v) = map (\<lambda>t. t\<lparr>answer := None\<rparr>) ts"
proof (cases "i < length ts")
  case True
  then show ?thesis
    by (simp add: set_answer_def map_update list_update_same_conv)
next
  case False
  then show ?thesis
    by (simp add: set_answer_def list_update_beyond)
qed


lemma answer_step_frame:
  assumes "answer_step K text idx cur tasks = Inr (i, c, ts)"
  shows "map (\<lambda>t. t\<lparr>answer := None\<rparr>) ts = map (\<lambda>t. t\<lparr>answer := None\<rparr>) tasks"
  using assms unfolding answer_step_def
  by (auto elim!: bindE_Inr_E simp: set_answer_frame split: option.splits if_splits)

lemma answer_loop_frame:
  "answer_loop K atext idx cur tasks = Inr ts \<Longrightarrow>
   map (\<lambda>t. t\<lparr>answer := None\<rparr>) ts = map (\<lambda>t. t\<lparr>answer := None\<rparr>) tasks"
proof (induction K atext idx cur tasks rule: answer_loop.induct)
  case (1 K answers_text idx current_task_num tasks)
  show ?case
  proof (cases "idx < length tasks")
    case False
    with "1.prems" show ?thesis
      by (subst (asm) answer_loop.simps) simp
  next
    case True
    with "1.prems" obtain i c ts' where s: "answer_step K answers_text idx current_task_num tasks = Inr (i, c, ts')"
      and l: "answer_loop K answers_text i c ts' = Inr ts"
      by (subst (asm) answer_loop.simps) (auto split: sum.splits)
    from "1.IH" [OF True s refl refl l] answer_step_frame [OF s] show ?thesis
      by simp
  qed
qed

lemma answer_parser_paragraphs:
  assumes "answer_parser K d tasks = Inr ts"
  shows "map paragraph_id ts = map paragraph_id tasks"
proof -
  from assms have "map (\<lambda>t. t\<lparr>answer := None\<rparr>) ts = map (\<lambda>t. t\<lparr>answer := None\<rparr>) tasks"
    by (simp add: answer_parser_def answer_loop_frame)
  then have "map paragraph_id (map (\<lambda>t. t\<lparr>answer := None\<rparr>) ts) =
      map paragraph_id (map (\<lambda>t. t\<lparr>answer := None\<rparr>) tasks)"
    by simp
  then show ?thesis by (simp add: comp_def)
qed

lemma parser_result_state:
  assumes "parser K doc = Inr (tasks, chapters, authors)"
  obtains st where "parser_loop K (map strip doc) initial_state = Inr st"
    and "chapters = chapters_data st"
    and "map paragraph_id tasks = map paragraph_id (tasks_data st)"
proof -
  from assms obtain st where l: "parser_loop K (map strip doc) initial_state = Inr st"
    and r: "(if answers_text st \<noteq> [] then
               bindE (answer_parser K (answers_text st) (tasks_data st))
                 (\<lambda>tasks. Inr (tasks, chapters_data st, authors_data))
             else Inr (tasks_data st, chapters_data st, authors_data)) =
            Inr (tasks, chapters, authors)"
    unfolding parser_def Let_def by (rule bindE_Inr_E)
  show ?thesis
  proof (cases "answers_text st \<noteq> []")
    case False
    with r l show ?thesis by (intro that [of st]) simp_all
  next
    case True
    with r obtain ts where a: "answer_parser K (answers_text st) (tasks_data st) = Inr ts"
      and "Inr (ts, chapters_data st, authors_data) = Inr (tasks, chapters, authors)"
      by (auto elim!: bindE_Inr_E)
    with l answer_parser_paragraphs [OF a] show ?thesis
      by (intro that [of st]) simp_all
  qed
qed

lemma parser_step_no_chapter:
  assumes "chapters_data st = []"
    and "RE_CHAPTER K (data ! index st) = None"
    and "RE_SUPREME_CHAPTER K (data ! index st) = None \<and> RE_TASK K (data ! index st) \<noteq> None \<or>
         (\<exists>sm g1 v. RE_SUPREME_CHAPTER K (data ! index st) = Some sm \<and> group sm 1 = Some g1 \<and>
            PY_int K (butlast g1) = Inr v \<and>
            \<not> (v = current_chapter st + 1 \<and> RE_TASK K (data ! index st) = None))"
  shows "parser_step K data st = Inl IndexError"
  using assms(3)
proof
  assume "RE_SUPREME_CHAPTER K (data ! index st) = None \<and> RE_TASK K (data ! index st) \<noteq> None"
  then obtain tm where "RE_SUPREME_CHAPTER K (data ! index st) = None"
    and "RE_TASK K (data ! index st) = Some tm"
    by auto
  with assms(1,2) show ?thesis
    by (cases "previous_id_of (tasks_data st) tm")
      (auto simp: parser_step_def Let_def previous_id_of_def last_elem_def split: if_splits)
next
  assume "\<exists>sm g1 v. RE_SUPREME_CHAPTER K (data ! index st) = Some sm \<and> group sm 1 = Some g1 \<and>
            PY_int K (butlast g1) = Inr v \<and>
            \<not> (v = current_chapter st + 1 \<and> RE_TASK K (data ! index st) = None)"
  then obtain sm g1 v where "RE_SUPREME_CHAPTER K (data ! index st) = Some sm"
    and "group sm 1 = Some g1" and "PY_int K (butlast g1) = Inr v"
    and "\<not> (v = current_chapter st + 1 \<and> RE_TASK K (data ! index st) = None)"
    by blast
  with assms(1,2) show ?thesis
    by (auto simp: parser_step_def Let_def last_elem_def)
qed

lemma find_next_task_stop:
  "find_next_task K data tasks i prev p = Inr (j, ts) \<Longrightarrow>
   RE_TASK K (data ! j) = None \<or> RE_SUPREME_CHAPTER K (data ! j) \<noteq> None"
proof (induction K data tasks i prev p rule: find_next_task.induct)
  case (1 K data tasks next_index previous_id p)
  from "1.prems" have inside: "next_index < length data"
    by (subst (asm) find_next_task.simps) (simp split: if_splits)
  show ?case
  proof (cases "RE_TASK K (data ! next_index)")
    case None
    with "1.prems" inside have "j = next_index"
      by (subst (asm) find_next_task.simps) simp
    with None show ?thesis by simp
  next
    case (Some task_match)
    show ?thesis
    proof (cases "RE_SUPREME_CHAPTER K (data ! next_index)")
      case (Some sm)
      with "1.prems" inside \<open>RE_TASK K (data ! next_index) = Some task_match\<close>
      have "j = next_index"
        by (subst (asm) find_next_task.simps) simp
      with Some show ?thesis by simp
    next
      case None
      from "1.prems" inside None \<open>RE_TASK K (data ! next_index) = Some task_match\<close>
      obtain t where t: "get_task_data task_match p previous_id False = Inr t"
        and rec: "find_next_task K data (tasks @ [t]) (next_index + 1) previous_id p = Inr (j, ts)"
        by (subst (asm) find_next_task.simps) (auto split: sum.splits)
      from "1.IH" [OF _ \<open>RE_TASK K (data ! next_index) = Some task_match\<close> None t rec] inside
      show ?thesis by simp
    qed
  qed
qed

lemma find_next_task_no_supreme:
  "find_next_task K data tasks i prev p = Inr (j, ts) \<Longrightarrow>
   \<forall>k. i \<le> k \<and> k < j \<longrightarrow> RE_SUPREME_CHAPTER K (data ! k) = None"
proof (induction K data tasks i prev p rule: find_next_task.induct)
  case (1 K data tasks next_index previous_id p)
  from "1.prems" have inside: "next_index < length data"
    by (subst (asm) find_next_task.simps) (simp split: if_splits)
  show ?case
  proof (cases "RE_TASK K (data ! next_index)")
    case None
    with "1.prems" inside have "j = next_index"
      by (subst (asm) find_next_task.simps) simp
    then show ?thesis by auto
  next
    case (Some task_match)
    show ?thesis
    proof (cases "RE_SUPREME_CHAPTER K (data ! next_index)")
      case (Some sm)
      with "1.prems" inside \<open>RE_TASK K (data ! next_index) = Some task_match\<close>
      have "j = next_index"
        by (subst (asm) find_next_task.simps) simp
      then show ?thesis by auto
    next
      case None
      from "1.prems" inside None \<open>RE_TASK K (data ! next_index) = Some task_match\<close>
      obtain t where t: "get_task_data task_match p previous_id False = Inr t"
        and rec: "find_next_task K data (tasks @ [t]) (next_index + 1) previous_id p = Inr (j, ts)"
        by (subst (asm) find_next_task.simps) (auto split: sum.splits)
      from "1.IH" [OF _ \<open>RE_TASK K (data ! next_index) = Some task_match\<close> None t rec] inside
      have later: "\<forall>k. next_index + 1 \<le> k \<and> k < j \<longrightarrow> RE_SUPREME_CHAPTER K (data ! k) = None"
        by simp
      show ?thesis
      proof (intro allI impI)
        fix k assume k: "next_index \<le> k \<and> k < j"
        show "RE_SUPREME_CHAPTER K (data ! k) = None"
        proof (cases "k = next_index")
          case True
          with None show ?thesis by simp
        next
          case False
          with k have "next_index + 1 \<le> k \<and> k < j" by simp
          with later show ?thesis by blast
        qed
      qed
    qed
  qed
qed

lemma get_task_data_explicit:
  assumes "get_task_data m p previous False = Inr t" and "group m 1 = Some g1"
  shows "\<exists>g2. group m 2 = Some g2 \<and> id_tasks_book t = butlast (g1 @ g2)"
  using assms by (auto simp: get_task_data_def new_task_def split: option.splits)

lemma parser_step_initial:
  assumes "parser_step K data initial_state = Inr r"
  shows "RE_CHAPTER K (data ! 0) \<noteq> None \<or>
         (\<exists>sm g1. RE_SUPREME_CHAPTER K (data ! 0) = Some sm \<and> group sm 1 = Some g1 \<and>
            PY_int K (butlast g1) = Inr 1 \<and> RE_TASK K (data ! 0) = None) \<or>
         (data ! 0 = answers_title \<and> RE_SUPREME_CHAPTER K (data ! 0) = None \<and>
            RE_CHAPTER K (data ! 0) = None \<and> RE_TASK K (data ! 0) = None)"
proof (cases "RE_CHAPTER K (data ! 0)")
  case (Some cm)
  then show ?thesis by simp
next
  case None
  have e: "chapters_data initial_state = []" and i: "index initial_state = 0"
    and c: "current_chapter initial_state = 0"
    by (simp_all add: initial_state_def)
  show ?thesis
  proof (cases "RE_SUPREME_CHAPTER K (data ! 0)")
    case (Some sm)
    with assms i obtain g1 n where g1: "group sm 1 = Some g1"
      and n: "PY_int K (butlast g1) = Inr n"
      by (auto simp: parser_step_def Let_def elim!: bindE_Inr_E split: option.splits)
    show ?thesis
    proof (cases "n = current_chapter initial_state + 1 \<and> RE_TASK K (data ! 0) = None")
      case True
      with Some g1 n c show ?thesis by simp
    next
      case False
      with Some g1 n None i
      have "parser_step K data initial_state = Inl IndexError"
        by (intro parser_step_no_chapter [OF e]) auto
      with assms show ?thesis by simp
    qed
  next
    case ns: None
    show ?thesis
    proof (cases "RE_TASK K (data ! 0)")
      case (Some tm)
      with ns None i have "parser_step K data initial_state = Inl IndexError"
        by (intro parser_step_no_chapter [OF e]) auto
      with assms show ?thesis by simp
    next
      case nt: None
      with ns None assms i show ?thesis
        by (auto simp: parser_step_def Let_def split: if_splits)
    qed
  qed
qed

lemma parser_first_step:
  assumes "parser K doc = Inr (tasks, chapters, authors)" and "doc \<noteq> []"
  shows "\<exists>r. parser_step K (map strip doc) initial_state = Inr r"
proof -
  from assms(1) obtain st where l: "parser_loop K (map strip doc) initial_state = Inr st"
    by (rule parser_result_state)
  from assms(2) have "index initial_state < length (map strip doc)"
    by (simp add: initial_state_def)
  with l show ?thesis
    by (subst (asm) parser_loop.simps) (auto split: sum.splits)
qed

section \<open>What a pass of the answer loop changes\<close>

text \<open>
  \<open>answer_state K atext tasks n\<close> is the state (index, \<open>current_task_num\<close>, task
  list) in which the loop of \<open>answer_parser\<close> starts its pass number \<open>n\<close>, when it
  gets that far. \<open>answer_step_cases\<close> lists the six ways a pass can end without an
  error. \<open>apply_writes\<close> replays a sequence of assignments to \<open>answer\<close> fields;
  \<open>extracted\<close> says that a value was obtained from the answers text by the two
  answer patterns, and \<open>passed_over\<close> that the loop stood on a task and went on
  without assigning it an answer.
\<close>

fun answer_state ::
  "constants \<Rightarrow> ustring \<Rightarrow> task_data list \<Rightarrow> nat \<Rightarrow> (nat \<times> int \<times> task_data list) option" where
  "answer_state K atext tasks 0 = Some (0, 0, tasks)"
| "answer_state K atext tasks (Suc n) =
     (case answer_state K atext tasks n of
        None \<Rightarrow> None
      | Some (i, c, ts) \<Rightarrow>
          if i < length ts then
            (case answer_step K atext i c ts of Inl e \<Rightarrow> None | Inr s \<Rightarrow> Some s)
          else None)"

definition result_of :: "pyval \<Rightarrow> (pyval \<Rightarrow> pyerror + pyval) \<Rightarrow> pyval \<Rightarrow> pyerror + pyval" where
  "result_of absent part block = (if block \<noteq> absent then part block else Inr block)"

lemma answer_step_cases [consumes 1, case_names sub_assign sub_skip bare_bare bare_greater
    bare_equal bare_less]:
  assumes "answer_step K atext i cur tasks = Inr (i', c', ts)"
  obtains
    (sub_assign) m n block v where
      "RE_TASK_ID K (id_tasks_book (tasks ! i)) = Some m" "truthy (group m 1)"
      "PY_int K (the (group m 1)) = Inr n" "cur \<le> n"
      "get_answer_text K n atext = Inr block"
      "result_of (ABSENT K) (get_answer_part K (group m 2)) block = Inr v"
      "i' = i + 1" "c' = n" "ts = set_answer tasks i v"
  | (sub_skip) m n where
      "RE_TASK_ID K (id_tasks_book (tasks ! i)) = Some m" "truthy (group m 1)"
      "PY_int K (the (group m 1)) = Inr n" "n < cur"
      "i' = i + 1" "c' = cur" "ts = tasks"
  | (bare_bare) m c nm a c2 a2 where
      "RE_TASK_ID K (id_tasks_book (tasks ! i)) = Some m" "\<not> truthy (group m 1)"
      "int_group0 K m = Inr c" "i + 1 < length tasks"
      "RE_TASK_ID K (id_tasks_book (tasks ! (i + 1))) = Some nm" "group nm 1 = None"
      "get_answer_text K c atext = Inr a" "int_group0 K nm = Inr c2"
      "get_answer_text K c2 atext = Inr a2"
      "i' = i + 2" "c' = c2" "ts = set_answer (set_answer tasks i a) (i + 1) a2"
  | (bare_greater) m c nm g1 n a block v where
      "RE_TASK_ID K (id_tasks_book (tasks ! i)) = Some m" "\<not> truthy (group m 1)"
      "int_group0 K m = Inr c" "i + 1 < length tasks"
      "RE_TASK_ID K (id_tasks_book (tasks ! (i + 1))) = Some nm" "group nm 1 = Some g1"
      "PY_int K g1 = Inr n" "c < n"
      "get_answer_text K c atext = Inr a" "get_answer_text K n atext = Inr block"
      "result_of (ABSENT K) (get_answer_part K (group nm 2)) block = Inr v"
      "i' = i + 2" "c' = n" "ts = set_answer (set_answer tasks i a) (i + 1) v"
  | (bare_equal) m c nm g1 block where
      "RE_TASK_ID K (id_tasks_book (tasks ! i)) = Some m" "\<not> truthy (group m 1)"
      "int_group0 K m = Inr c" "i + 1 < length tasks"
      "RE_TASK_ID K (id_tasks_book (tasks ! (i + 1))) = Some nm" "group nm 1 = Some g1"
      "PY_int K g1 = Inr c" "get_answer_text K c atext = Inr block"
      "i' = i + 1" "c' = c"
      "if block \<noteq> ABSENT K
       then \<exists>v. get_answer_part K (group nm 2) block = Inr v \<and>
              ts = set_answer (set_answer tasks i (ABSENT K)) (i + 1) v
       else ts = set_answer tasks i (ABSENT K)"
  | (bare_less) m c nm g1 n where
      "RE_TASK_ID K (id_tasks_book (tasks ! i)) = Some m" "\<not> truthy (group m 1)"
      "int_group0 K m = Inr c" "i + 1 < length tasks"
      "RE_TASK_ID K (id_tasks_book (tasks ! (i + 1))) = Some nm" "group nm 1 = Some g1"
      "PY_int K g1 = Inr n" "n < c"
      "i' = i + 1" "c' = c" "ts = tasks"
proof -
  from assms obtain m where m: "RE_TASK_ID K (id_tasks_book (tasks ! i)) = Some m"
    by (auto simp: answer_step_def split: option.splits)
  show ?thesis
  proof (cases "truthy (group m 1)")
    case True
    with m assms obtain n where n: "PY_int K (the (group m 1)) = Inr n"
      by (auto simp: answer_step_def elim!: bindE_Inr_E)
    show ?thesis
    proof (cases "cur \<le> n")
      case False
      with m True n assms show ?thesis
        by (intro sub_skip [of m n]) (auto simp: answer_step_def)
    next
      case le: True
      with m True n assms obtain block where b: "get_answer_text K n atext = Inr block"
        by (auto simp: answer_step_def elim!: bindE_Inr_E)
      with m True n le assms obtain v where
        "result_of (ABSENT K) (get_answer_part K (group m 2)) block = Inr v"
        and "i' = i + 1" and "c' = n" and "ts = set_answer tasks i v"
        by (auto simp: answer_step_def result_of_def elim!: bindE_Inr_E split: if_splits)
      with m True n le b show ?thesis
        by (intro sub_assign [of m n block v])
    qed
  next
    case False
    with m assms obtain c where c: "int_group0 K m = Inr c"
      by (auto simp: answer_step_def elim!: bindE_Inr_E)
    with m False assms have inside: "i + 1 < length tasks"
      by (auto simp: answer_step_def split: if_splits)
    with m False c assms obtain nm where
      nm: "RE_TASK_ID K (id_tasks_book (tasks ! (i + 1))) = Some nm"
      by (auto simp: answer_step_def split: option.splits)
    show ?thesis
    proof (cases "group nm 1")
      case None
      with m False c inside nm assms obtain a c2 a2 where
        "get_answer_text K c atext = Inr a" and "int_group0 K nm = Inr c2"
        and "get_answer_text K c2 atext = Inr a2"
        and "i' = i + 2" and "c' = c2" and "ts = set_answer (set_answer tasks i a) (i + 1) a2"
        by (auto simp: answer_step_def elim!: bindE_Inr_E)
      with m False c inside nm None show ?thesis
        by (intro bare_bare [of m c nm a c2 a2])
    next
      case (Some g1)
      with m False c inside nm assms obtain n where n: "PY_int K g1 = Inr n"
        by (auto simp: answer_step_def elim!: bindE_Inr_E)
      consider "c < n" | "n = c" | "n < c" by linarith
      then show ?thesis
      proof cases
        case 1
        with m False c inside nm Some n assms obtain a block v where
          "get_answer_text K c atext = Inr a" and "get_answer_text K n atext = Inr block"
          and "result_of (ABSENT K) (get_answer_part K (group nm 2)) block = Inr v"
          and "i' = i + 2" and "c' = n" and "ts = set_answer (set_answer tasks i a) (i + 1) v"
          by (auto simp: answer_step_def result_of_def elim!: bindE_Inr_E split: if_splits)
        with m False c inside nm Some n 1 show ?thesis
          by (intro bare_greater [of m c nm g1 n a block v])
      next
        case 2
        with m False c inside nm Some n assms obtain block where
          "get_answer_text K c atext = Inr block" and "i' = i + 1" and "c' = c"
          and "if block \<noteq> ABSENT K
               then \<exists>v. get_answer_part K (group nm 2) block = Inr v \<and>
                      ts = set_answer (set_answer tasks i (ABSENT K)) (i + 1) v
               else ts = set_answer tasks i (ABSENT K)"
          by (auto simp: answer_step_def elim!: bindE_Inr_E split: if_splits)
        with m False c inside nm Some n 2 show ?thesis
          by (intro bare_equal [of m c nm g1 block]) simp_all
      next
        case 3
        with m False c inside nm Some n assms show ?thesis
          by (intro bare_less [of m c nm g1 n]) (auto simp: answer_step_def)
      qed
    qed
  qed
qed

lemma answer_state_Suc_E:
  assumes "answer_state K atext tasks (Suc n) = Some (i', c', ts')"
  obtains i c ts where "answer_state K atext tasks n = Some (i, c, ts)" and "i < length ts"
    and "answer_step K atext i c ts = Inr (i', c', ts')"
  using assms by (auto split: option.splits if_splits sum.splits)

lemma answer_loop_from_state:
  "answer_state K atext tasks n = Some (i, c, ts) \<Longrightarrow>
   answer_loop K atext 0 0 tasks = answer_loop K atext i c ts"
proof (induction n arbitrary: i c ts)
  case 0
  then show ?case by simp
next
  case (Suc n)
  from Suc.prems obtain i0 c0 ts0 where s: "answer_state K atext tasks n = Some (i0, c0, ts0)"
    and inside: "i0 < length ts0"
    and step: "answer_step K atext i0 c0 ts0 = Inr (i, c, ts)"
    by (rule answer_state_Suc_E)
  have "answer_loop K atext i0 c0 ts0 = answer_loop K atext i c ts"
    using inside step by (subst answer_loop.simps) simp
  with Suc.IH [OF s] show ?case by simp
qed

lemma answer_set_answer_same [simp]:
  "i < length ts \<Longrightarrow> answer (set_answer ts i v ! i) = Some v"
  by (simp add: set_answer_def)

lemma nth_set_answer_other [simp]:
  "i \<noteq> j \<Longrightarrow> set_answer ts i v ! j = ts ! j"
  by (simp add: set_answer_def)

definition apply_writes :: "(nat \<times> pyval) list \<Rightarrow> task_data list \<Rightarrow> task_data list" where
  "apply_writes W ts = fold (\<lambda>(j, v) xs. set_answer xs j v) W ts"

lemma apply_writes_simps [simp]:
  "apply_writes [] ts = ts"
  "apply_writes ((j, v) # W) ts = apply_writes W (set_answer ts j v)"
  by (simp_all add: apply_writes_def)

lemma apply_writes_append: "apply_writes (W @ W') ts = apply_writes W' (apply_writes W ts)"
  by (simp add: apply_writes_def)

lemma length_apply_writes [simp]: "length (apply_writes W ts) = length ts"
  by (induction W arbitrary: ts) auto

lemma ids_set_answer [simp]:
  "map id_tasks_book (set_answer ts i v) = map id_tasks_book ts"
proof (cases "i < length ts")
  case True
  then show ?thesis
    by (simp add: set_answer_def map_update list_update_same_conv)
next
  case False
  then show ?thesis
    by (simp add: set_answer_def list_update_beyond)
qed

lemma ids_apply_writes [simp]:
  "map id_tasks_book (apply_writes W ts) = map id_tasks_book ts"
  by (induction W arbitrary: ts) auto

lemma nth_set_answer:
  "j < length ts \<Longrightarrow>
   set_answer ts i v ! j = (if j = i then (ts ! j)\<lparr>answer := Some v\<rparr> else ts ! j)"
  by (simp add: set_answer_def nth_list_update)

lemma nth_apply_writes:
  "j < length ts \<Longrightarrow>
   apply_writes W ts ! j =
     (case map_of (rev W) j of None \<Rightarrow> ts ! j | Some v \<Rightarrow> (ts ! j)\<lparr>answer := Some v\<rparr>)"
proof (induction W arbitrary: ts)
  case Nil
  then show ?case by simp
next
  case (Cons w W)
  obtain i v where w: "w = (i, v)" by (cases w)
  from Cons.prems have j: "j < length (set_answer ts i v)" by simp
  show ?case
    using Cons.IH [OF j] Cons.prems
    by (auto simp: w nth_set_answer map_add_def split: option.splits)
qed

lemma apply_writes_idem: "apply_writes W (apply_writes W ts) = apply_writes W ts"
proof (rule nth_equalityI)
  show "length (apply_writes W (apply_writes W ts)) = length (apply_writes W ts)"
    by simp
next
  fix j assume "j < length (apply_writes W (apply_writes W ts))"
  then have j: "j < length ts" by simp
  then have "j < length (apply_writes W ts)" by simp
  from nth_apply_writes [OF this, of W] nth_apply_writes [OF j, of W]
  show "apply_writes W (apply_writes W ts) ! j = apply_writes W ts ! j"
    by (simp split: option.splits)
qed

lemma same_ids_nth:
  assumes "map id_tasks_book u = map id_tasks_book t" and "j < length t"
  shows "id_tasks_book (u ! j) = id_tasks_book (t ! j)" and "length u = length t"
proof -
  from assms(1) show l: "length u = length t"
    by (rule map_eq_imp_length_eq)
  from assms(1) have "map id_tasks_book u ! j = map id_tasks_book t ! j" by simp
  with assms(2) l show "id_tasks_book (u ! j) = id_tasks_book (t ! j)" by simp
qed

lemma answer_step_writes:
  assumes "answer_step K atext i cur t = Inr (i', c', t')"
    and "i < length t"
    and "map id_tasks_book u = map id_tasks_book t"
  shows "\<exists>W. t' = apply_writes W t \<and>
           answer_step K atext i cur u = Inr (i', c', apply_writes W u)"
proof -
  note here = same_ids_nth [OF assms(3,2)]
  show ?thesis
    using assms(1)
  proof (cases rule: answer_step_cases)
    case (sub_assign m n block v)
    then have "answer_step K atext i cur u = Inr (i', c', apply_writes [(i, v)] u)"
      using here by (auto simp: answer_step_def result_of_def split: if_splits)
    with sub_assign show ?thesis
      by (intro exI [of _ "[(i, v)]"]) simp
  next
    case (sub_skip m n)
    then have "answer_step K atext i cur u = Inr (i', c', apply_writes [] u)"
      using here by (auto simp: answer_step_def)
    with sub_skip show ?thesis
      by (intro exI [of _ "[]"]) simp
  next
    case (bare_bare m c nm a c2 a2)
    note next_one = same_ids_nth [OF assms(3) bare_bare(4)]
    from bare_bare
    have "answer_step K atext i cur u = Inr (i', c', apply_writes [(i, a), (i + 1, a2)] u)"
      using here next_one by (auto simp: answer_step_def)
    with bare_bare show ?thesis
      by (intro exI [of _ "[(i, a), (i + 1, a2)]"]) simp
  next
    case (bare_greater m c nm g1 n a block v)
    note next_one = same_ids_nth [OF assms(3) bare_greater(4)]
    from bare_greater
    have "answer_step K atext i cur u = Inr (i', c', apply_writes [(i, a), (i + 1, v)] u)"
      using here next_one by (auto simp: answer_step_def result_of_def split: if_splits)
    with bare_greater show ?thesis
      by (intro exI [of _ "[(i, a), (i + 1, v)]"]) simp
  next
    case (bare_equal m c nm g1 block)
    note next_one = same_ids_nth [OF assms(3) bare_equal(4)]
    show ?thesis
    proof (cases "block \<noteq> ABSENT K")
      case True
      with bare_equal obtain v where v: "get_answer_part K (group nm 2) block = Inr v"
        and t': "t' = set_answer (set_answer t i (ABSENT K)) (i + 1) v"
        by auto
      from bare_equal True v
      have "answer_step K atext i cur u =
          Inr (i', c', apply_writes [(i, ABSENT K), (i + 1, v)] u)"
        using here next_one by (auto simp: answer_step_def)
      with t' show ?thesis
        by (intro exI [of _ "[(i, ABSENT K), (i + 1, v)]"]) simp
    next
      case False
      with bare_equal have t': "t' = set_answer t i (ABSENT K)"
        by auto
      from bare_equal False
      have "answer_step K atext i cur u = Inr (i', c', apply_writes [(i, ABSENT K)] u)"
        using here next_one by (auto simp: answer_step_def)
      with t' show ?thesis
        by (intro exI [of _ "[(i, ABSENT K)]"]) simp
    qed
  next
    case (bare_less m c nm g1 n)
    note next_one = same_ids_nth [OF assms(3) bare_less(4)]
    from bare_less
    have "answer_step K atext i cur u = Inr (i', c', apply_writes [] u)"
      using here next_one by (auto simp: answer_step_def)
    with bare_less show ?thesis
      by (intro exI [of _ "[]"]) simp
  qed
qed

lemma answer_loop_writes:
  "answer_loop K atext i cur t = Inr ft \<Longrightarrow> map id_tasks_book u = map id_tasks_book t \<Longrightarrow>
   \<exists>W. ft = apply_writes W t \<and> answer_loop K atext i cur u = Inr (apply_writes W u)"
proof (induction K atext i cur t arbitrary: u rule: answer_loop.induct)
  case (1 K answers_text i current_task_num tasks)
  from "1.prems"(2) have len: "length u = length tasks"
    by (rule map_eq_imp_length_eq)
  show ?case
  proof (cases "i < length tasks")
    case False
    with "1.prems"(1) have "ft = tasks"
      by (subst (asm) answer_loop.simps) simp
    moreover from False len have "answer_loop K answers_text i current_task_num u = Inr u"
      by (subst answer_loop.simps) simp
    ultimately show ?thesis
      by (intro exI [of _ "[]"]) simp
  next
    case True
    with "1.prems"(1) obtain i' c' t' where
      s: "answer_step K answers_text i current_task_num tasks = Inr (i', c', t')"
      and l: "answer_loop K answers_text i' c' t' = Inr ft"
      by (subst (asm) answer_loop.simps) (auto split: sum.splits)
    from answer_step_writes [OF s True "1.prems"(2)] obtain W1 where
      t': "t' = apply_writes W1 tasks"
      and su: "answer_step K answers_text i current_task_num u = Inr (i', c', apply_writes W1 u)"
      by blast
    from t' "1.prems"(2) have "map id_tasks_book (apply_writes W1 u) = map id_tasks_book t'"
      by simp
    from "1.IH" [OF True s refl refl l this] obtain W2 where
      ft: "ft = apply_writes W2 t'"
      and lu: "answer_loop K answers_text i' c' (apply_writes W1 u) =
               Inr (apply_writes W2 (apply_writes W1 u))"
      by blast
    from True len su lu
    have "answer_loop K answers_text i current_task_num u =
        Inr (apply_writes (W1 @ W2) u)"
      by (subst answer_loop.simps) (simp add: apply_writes_append)
    with ft t' show ?thesis
      by (intro exI [of _ "W1 @ W2"]) (simp add: apply_writes_append)
  qed
qed

definition extracted :: "constants \<Rightarrow> ustring \<Rightarrow> pyval \<Rightarrow> bool" where
  "extracted K atext v \<longleftrightarrow>
     (\<exists>n block. get_answer_text K n atext = Inr block \<and> block \<noteq> ABSENT K \<and>
        (v = block \<or> (\<exists>p. get_answer_part K p block = Inr v)))"

definition answered :: "constants \<Rightarrow> ustring \<Rightarrow> task_data \<Rightarrow> bool" where
  "answered K atext t \<longleftrightarrow>
     (\<exists>v. answer t = Some v \<and> (v = ABSENT K \<or> extracted K atext v))"

lemma answered_block:
  assumes "get_answer_text K n atext = Inr a" and "j < length ts"
  shows "answered K atext (set_answer ts j a ! j)"
  using assms by (cases "a = ABSENT K") (auto simp: answered_def extracted_def)

lemma answered_result:
  assumes "get_answer_text K n atext = Inr block"
    and "result_of (ABSENT K) (get_answer_part K p) block = Inr v" and "j < length ts"
  shows "answered K atext (set_answer ts j v ! j)"
proof (cases "block = ABSENT K")
  case True
  with assms show ?thesis
    by (simp add: result_of_def answered_def)
next
  case False
  with assms have "get_answer_part K p block = Inr v"
    by (simp add: result_of_def)
  with assms(1) False have "extracted K atext v"
    by (auto simp: extracted_def)
  with assms(3) show ?thesis
    by (simp add: answered_def)
qed

lemma answered_absent: "j < length ts \<Longrightarrow> answered K atext (set_answer ts j (ABSENT K) ! j)"
  by (simp add: answered_def)

lemma answer_step_prefix:
  assumes "answer_step K atext i cur t = Inr (i', c', t')" and "j < i"
  shows "t' ! j = t ! j"
  using assms(1)
proof (cases rule: answer_step_cases)
  case (bare_equal m c nm g1 block)
  with assms(2) show ?thesis by (auto split: if_splits)
qed (use assms(2) in auto)

lemma answer_loop_prefix:
  "answer_loop K atext i cur t = Inr ft \<Longrightarrow> j < i \<Longrightarrow> ft ! j = t ! j"
proof (induction K atext i cur t rule: answer_loop.induct)
  case (1 K answers_text i current_task_num tasks)
  show ?case
  proof (cases "i < length tasks")
    case False
    with "1.prems"(1) show ?thesis
      by (subst (asm) answer_loop.simps) simp
  next
    case True
    with "1.prems"(1) obtain i' c' t' where
      s: "answer_step K answers_text i current_task_num tasks = Inr (i', c', t')"
      and l: "answer_loop K answers_text i' c' t' = Inr ft"
      by (subst (asm) answer_loop.simps) (auto split: sum.splits)
    from answer_step_advances [OF s] "1.prems"(2) have "j < i'" by simp
    with "1.IH" [OF True s refl refl l] answer_step_prefix [OF s "1.prems"(2)]
    show ?thesis by simp
  qed
qed

lemma answer_state_ids:
  "answer_state K atext tasks n = Some (i, cur, t) \<Longrightarrow>
   map id_tasks_book t = map id_tasks_book tasks"
proof (induction n arbitrary: i cur t)
  case 0
  then show ?case by simp
next
  case (Suc n)
  from Suc.prems obtain i0 c0 t0 where s: "answer_state K atext tasks n = Some (i0, c0, t0)"
    and inside: "i0 < length t0"
    and step: "answer_step K atext i0 c0 t0 = Inr (i, cur, t)"
    by (rule answer_state_Suc_E)
  from answer_step_writes [OF step inside refl] Suc.IH [OF s] show ?case
    by auto
qed

lemma answer_loop_unfold:
  assumes "answer_loop K atext i cur t = Inr ft" and "i < length t"
  obtains i' c' t' where "answer_step K atext i cur t = Inr (i', c', t')"
    and "answer_loop K atext i' c' t' = Inr ft"
  using assms by (subst (asm) answer_loop.simps) (auto split: sum.splits)

lemma answer_loop_final_state:
  "answer_loop K atext i cur t = Inr ft \<Longrightarrow> answer_state K atext tasks n = Some (i, cur, t) \<Longrightarrow>
   \<exists>n' i' cur'. answer_state K atext tasks n' = Some (i', cur', ft) \<and> length ft \<le> i'"
proof (induction K atext i cur t arbitrary: n rule: answer_loop.induct)
  case (1 K answers_text i current_task_num t)
  show ?case
  proof (cases "i < length t")
    case False
    with "1.prems"(1) have "ft = t"
      by (subst (asm) answer_loop.simps) simp
    with False "1.prems"(2) show ?thesis
      by (intro exI [of _ n] exI [of _ i] exI [of _ current_task_num]) simp
  next
    case True
    from "1.prems"(1) True obtain i' c' t' where
      s: "answer_step K answers_text i current_task_num t = Inr (i', c', t')"
      and l: "answer_loop K answers_text i' c' t' = Inr ft"
      by (rule answer_loop_unfold)
    from "1.prems"(2) True s have "answer_state K answers_text tasks (Suc n) = Some (i', c', t')"
      by simp
    from "1.IH" [OF True s refl refl l this] show ?thesis .
  qed
qed

definition passed_over :: "constants \<Rightarrow> ustring \<Rightarrow> task_data list \<Rightarrow> nat \<Rightarrow> bool" where
  "passed_over K atext tasks j \<longleftrightarrow>
     (\<exists>n cur t m.
        answer_state K atext tasks n = Some (j, cur, t) \<and> j < length tasks \<and>
        RE_TASK_ID K (id_tasks_book (tasks ! j)) = Some m \<and>
        (if truthy (group m 1) then \<exists>v. PY_int K (the (group m 1)) = Inr v \<and> v < cur
         else \<exists>c nm g1 v.
                int_group0 K m = Inr c \<and> j + 1 < length tasks \<and>
                RE_TASK_ID K (id_tasks_book (tasks ! (j + 1))) = Some nm \<and>
                group nm 1 = Some g1 \<and> PY_int K g1 = Inr v \<and> v < c))"

lemma pass_invariant:
  fixes A :: "task_data \<Rightarrow> bool" and PO :: "nat \<Rightarrow> bool"
  assumes IH: "\<forall>j<l. (j < i0 \<longrightarrow> A (t0 ! j) \<or> (PO j \<and> t0 ! j = tasks ! j)) \<and>
                      (i0 \<le> j \<longrightarrow> A (t0 ! j) \<or> t0 ! j = tasks ! j)"
    and same: "\<forall>j<l. t ! j = t0 ! j \<or> A (t ! j)"
    and new: "\<forall>j<l. i0 \<le> j \<and> j < i \<longrightarrow> A (t ! j) \<or> (PO j \<and> t ! j = t0 ! j)"
  shows "\<forall>j<l. (j < i \<longrightarrow> A (t ! j) \<or> (PO j \<and> t ! j = tasks ! j)) \<and>
                (i \<le> j \<longrightarrow> A (t ! j) \<or> t ! j = tasks ! j)"
proof (intro allI impI conjI)
  fix j assume j: "j < l" and "j < i"
  show "A (t ! j) \<or> (PO j \<and> t ! j = tasks ! j)"
  proof (cases "j < i0")
    case True
    with IH j have "A (t0 ! j) \<or> (PO j \<and> t0 ! j = tasks ! j)" by blast
    moreover from same j have "t ! j = t0 ! j \<or> A (t ! j)" by blast
    ultimately show ?thesis by auto
  next
    case False
    with \<open>j < i\<close> new j have "A (t ! j) \<or> (PO j \<and> t ! j = t0 ! j)" by auto
    moreover from False IH j have "A (t0 ! j) \<or> t0 ! j = tasks ! j" by auto
    ultimately show ?thesis by auto
  qed
next
  fix j assume j: "j < l" and "i \<le> j"
  from same j have "t ! j = t0 ! j \<or> A (t ! j)" by blast
  moreover have "A (t0 ! j) \<or> t0 ! j = tasks ! j"
  proof (cases "i0 \<le> j")
    case True
    with IH j show ?thesis by blast
  next
    case False
    with \<open>i \<le> j\<close> new have "True" by simp
    from False IH j have "A (t0 ! j) \<or> (PO j \<and> t0 ! j = tasks ! j)" by auto
    then show ?thesis by auto
  qed
  ultimately show "A (t ! j) \<or> t ! j = tasks ! j" by auto
qed

lemma pass_one:
  fixes A :: "task_data \<Rightarrow> bool" and PO :: "nat \<Rightarrow> bool"
  assumes "A (t ! i0)" and "\<And>j. j \<noteq> i0 \<Longrightarrow> t ! j = t0 ! j" and "i = i0 + 1"
  shows "(\<forall>j<l. t ! j = t0 ! j \<or> A (t ! j)) \<and>
         (\<forall>j<l. i0 \<le> j \<and> j < i \<longrightarrow> A (t ! j) \<or> (PO j \<and> t ! j = t0 ! j))"
proof (intro conjI allI impI)
  fix j
  show "t ! j = t0 ! j \<or> A (t ! j)"
    using assms(1,2) by (cases "j = i0") simp_all
next
  fix j assume "i0 \<le> j \<and> j < i"
  with assms(3) have "j = i0" by simp
  with assms(1) show "A (t ! j) \<or> (PO j \<and> t ! j = t0 ! j)" by simp
qed

lemma pass_two:
  fixes A :: "task_data \<Rightarrow> bool" and PO :: "nat \<Rightarrow> bool"
  assumes "A (t ! i0)" and "A (t ! (i0 + 1))"
    and "\<And>j. j \<noteq> i0 \<Longrightarrow> j \<noteq> i0 + 1 \<Longrightarrow> t ! j = t0 ! j"
    and "i = i0 + 1 \<or> i = i0 + 2"
  shows "(\<forall>j<l. t ! j = t0 ! j \<or> A (t ! j)) \<and>
         (\<forall>j<l. i0 \<le> j \<and> j < i \<longrightarrow> A (t ! j) \<or> (PO j \<and> t ! j = t0 ! j))"
proof (intro conjI allI impI)
  fix j
  show "t ! j = t0 ! j \<or> A (t ! j)"
    using assms(1,2,3) by (cases "j = i0"; cases "j = i0 + 1") simp_all
next
  fix j assume "i0 \<le> j \<and> j < i"
  with assms(4) have "j = i0 \<or> j = i0 + 1" by auto
  with assms(1,2) show "A (t ! j) \<or> (PO j \<and> t ! j = t0 ! j)" by auto
qed

lemma pass_skip:
  fixes A :: "task_data \<Rightarrow> bool" and PO :: "nat \<Rightarrow> bool"
  assumes "t = t0" and "PO i0" and "i = i0 + 1"
  shows "(\<forall>j<l. t ! j = t0 ! j \<or> A (t ! j)) \<and>
         (\<forall>j<l. i0 \<le> j \<and> j < i \<longrightarrow> A (t ! j) \<or> (PO j \<and> t ! j = t0 ! j))"
proof (intro conjI allI impI)
  fix j
  show "t ! j = t0 ! j \<or> A (t ! j)"
    using assms(1) by simp
next
  fix j assume "i0 \<le> j \<and> j < i"
  with assms(3) have "j = i0" by simp
  with assms(1,2) show "A (t ! j) \<or> (PO j \<and> t ! j = t0 ! j)" by simp
qed

lemma answer_step_pass:
  assumes step: "answer_step K atext i0 c0 t0 = Inr (i, cur, t)"
    and state: "answer_state K atext tasks n = Some (i0, c0, t0)"
    and i0: "i0 < length t0"
  shows "(\<forall>j<length tasks. t ! j = t0 ! j \<or> answered K atext (t ! j)) \<and>
         (\<forall>j<length tasks. i0 \<le> j \<and> j < i \<longrightarrow>
            answered K atext (t ! j) \<or> (passed_over K atext tasks j \<and> t ! j = t0 ! j))"
proof -
  note ids = answer_state_ids [OF state]
  then have len: "length t0 = length tasks" by (rule map_eq_imp_length_eq)
  from i0 len have i0': "i0 < length tasks" by simp
  note id_i = same_ids_nth(1) [OF ids i0']
  show ?thesis
    using step
  proof (cases rule: answer_step_cases)
    case (sub_assign m v block a)
    from answered_result [OF sub_assign(5,6) i0] sub_assign(9)
    have a0: "answered K atext (t ! i0)" by simp
    have "t ! j = t0 ! j" if "j \<noteq> i0" for j
      using that sub_assign(9) by simp
    with a0 show ?thesis
      using sub_assign(7) by (intro pass_one) simp_all
  next
    case (sub_skip m v)
    with id_i state i0' have "passed_over K atext tasks i0"
      unfolding passed_over_def
      by (intro exI [of _ n] exI [of _ c0] exI [of _ t0] exI [of _ m]) auto
    with sub_skip(5,7) show ?thesis
      by (intro pass_skip) simp_all
  next
    case (bare_bare m c nm a c2 a2)
    from answered_block [OF bare_bare(7) i0] bare_bare(12)
    have a0: "answered K atext (t ! i0)" by simp
    from answered_block [OF bare_bare(9), of "i0 + 1" "set_answer t0 i0 a"] bare_bare(4,12)
    have a1: "answered K atext (t ! (i0 + 1))" by simp
    have "t ! j = t0 ! j" if "j \<noteq> i0" and "j \<noteq> i0 + 1" for j
      using that bare_bare(12) by simp
    with a0 a1 show ?thesis
      using bare_bare(10) by (intro pass_two) simp_all
  next
    case (bare_greater m c nm g1 v a block b)
    from answered_block [OF bare_greater(9) i0] bare_greater(14)
    have a0: "answered K atext (t ! i0)" by simp
    from answered_result [OF bare_greater(10,11), of "i0 + 1" "set_answer t0 i0 a"]
      bare_greater(4,14)
    have a1: "answered K atext (t ! (i0 + 1))" by simp
    have "t ! j = t0 ! j" if "j \<noteq> i0" and "j \<noteq> i0 + 1" for j
      using that bare_greater(14) by simp
    with a0 a1 show ?thesis
      using bare_greater(12) by (intro pass_two) simp_all
  next
    case (bare_equal m c nm g1 block)
    show ?thesis
    proof (cases "block \<noteq> ABSENT K")
      case True
      with bare_equal(11) obtain v where v: "get_answer_part K (group nm 2) block = Inr v"
        and t: "t = set_answer (set_answer t0 i0 (ABSENT K)) (i0 + 1) v"
        by auto
      from answered_absent [OF i0, of K atext] t
      have a0: "answered K atext (t ! i0)" by simp
      from v True have "result_of (ABSENT K) (get_answer_part K (group nm 2)) block = Inr v"
        by (simp add: result_of_def)
      from answered_result [OF bare_equal(8) this, of "i0 + 1" "set_answer t0 i0 (ABSENT K)"]
        bare_equal(4) t
      have a1: "answered K atext (t ! (i0 + 1))" by simp
      have "t ! j = t0 ! j" if "j \<noteq> i0" and "j \<noteq> i0 + 1" for j
        using that t by simp
      with a0 a1 show ?thesis
        using bare_equal(9) by (intro pass_two) simp_all
    next
      case False
      with bare_equal(11) have t: "t = set_answer t0 i0 (ABSENT K)" by simp
      from answered_absent [OF i0, of K atext] t
      have a0: "answered K atext (t ! i0)" by simp
      have "t ! j = t0 ! j" if "j \<noteq> i0" for j
        using that t by simp
      with a0 show ?thesis
        using bare_equal(9) by (intro pass_one) simp_all
    qed
  next
    case (bare_less m c nm g1 v)
    from bare_less(4) len have n1: "i0 + 1 < length tasks" by simp
    note id_n = same_ids_nth(1) [OF ids n1]
    from bare_less id_i id_n state i0' n1 have "passed_over K atext tasks i0"
      unfolding passed_over_def
      by (intro exI [of _ n] exI [of _ c0] exI [of _ t0] exI [of _ m]) auto
    with bare_less(9,11) show ?thesis
      by (intro pass_skip) simp_all
  qed
qed

lemma answer_state_invariant:
  "answer_state K atext tasks n = Some (i, cur, t) \<Longrightarrow>
   \<forall>j<length tasks.
     (j < i \<longrightarrow> answered K atext (t ! j) \<or> (passed_over K atext tasks j \<and> t ! j = tasks ! j)) \<and>
     (i \<le> j \<longrightarrow> answered K atext (t ! j) \<or> t ! j = tasks ! j)"
proof (induction n arbitrary: i cur t)
  case 0
  then show ?case by simp
next
  case (Suc n)
  from Suc.prems obtain i0 c0 t0 where s: "answer_state K atext tasks n = Some (i0, c0, t0)"
    and inside: "i0 < length t0"
    and step: "answer_step K atext i0 c0 t0 = Inr (i, cur, t)"
    by (rule answer_state_Suc_E)
  from answer_step_pass [OF step s inside]
  have same: "\<forall>j<length tasks. t ! j = t0 ! j \<or> answered K atext (t ! j)"
    and new: "\<forall>j<length tasks. i0 \<le> j \<and> j < i \<longrightarrow>
            answered K atext (t ! j) \<or> (passed_over K atext tasks j \<and> t ! j = t0 ! j)"
    by simp_all
  from pass_invariant [of "length tasks" i0 "answered K atext" t0 "passed_over K atext tasks"
      tasks t i, OF Suc.IH [OF s] same new]
  show ?case .
qed

section \<open>An instance of the constants module\<close>

text \<open>
  The theorems below hold for every value of the constants. To run the program on
  concrete documents, the following instance is used. It follows the conventions the
  specification describes: a supreme chapter is a number, a dot and a title
  (``1. Title''), a sub-chapter has two numbers (``1.1. Title''), a task has three
  (``1.1.1. Text''), a continuation with an implicit number starts with a letter and a
  closing parenthesis, a book id is a whole number with an optional sub-part, an answer
  is anchored at the whole number and a dot at the start of a line, and the answer of a
  sub-part follows its letter and parenthesis up to the next semicolon.
\<close>

definition isdigit :: "nat \<Rightarrow> bool" where
  "isdigit c \<longleftrightarrow> 48 \<le> c \<and> c \<le> 57"

definition spec_int :: "ustring \<Rightarrow> pyerror + int" where
  \<comment> \<open>Modelled from the spec: the builtin int, on decimal digits.\<close>
  "spec_int s =
     (if s \<noteq> [] \<and> list_all isdigit s
      then Inr (foldl (\<lambda>a c. 10 * a + int (c - 48)) 0 s)
      else Inl (ValueError (ustr ''invalid literal for int()'')))"

definition spec_lower :: "ustring \<Rightarrow> ustring" where
  \<comment> \<open>Modelled from the spec: the builtin str.lower, on Latin and Cyrillic letters.\<close>
  "spec_lower s =
     map (\<lambda>c. if (0x41 \<le> c \<and> c \<le> 0x5A) \<or> (0x410 \<le> c \<and> c \<le> 0x42F) then c + 32
               else if 0x400 \<le> c \<and> c \<le> 0x40F then c + 80 else c) s"

definition split_number :: "ustring \<Rightarrow> (ustring \<times> ustring) option" where
  \<comment> \<open>Modelled from the spec: a leading number with its dot, and what follows it.\<close>
  "split_number s =
     (let ds = takeWhile isdigit s; r = dropWhile isdigit s
      in if ds \<noteq> [] \<and> r \<noteq> [] \<and> hd r = 0x2E then Some (ds @ [0x2E], tl r) else None)"

definition title_like :: "ustring \<Rightarrow> bool" where
  "title_like r \<longleftrightarrow> r \<noteq> [] \<and> \<not> isdigit (hd r)"

definition spec_supreme_chapter :: "ustring \<Rightarrow> rmatch option" where
  \<comment> \<open>Modelled from the spec: RE_SUPREME_CHAPTER, the number with its dot and the title.\<close>
  "spec_supreme_chapter t =
     (case split_number t of
        None \<Rightarrow> None
      | Some (n, r) \<Rightarrow>
          if title_like r then Some \<lparr>groups = [Some t, Some n, Some r], mend = length t\<rparr>
          else None)"

definition spec_chapter :: "ustring \<Rightarrow> rmatch option" where
  \<comment> \<open>Modelled from the spec: RE_CHAPTER, two numbers and the title.\<close>
  "spec_chapter t =
     (case split_number t of
        None \<Rightarrow> None
      | Some (n1, r1) \<Rightarrow>
          (case split_number r1 of
             None \<Rightarrow> None
           | Some (n2, r2) \<Rightarrow>
               if title_like r2
               then Some \<lparr>groups = [Some t, Some n1, Some n2, Some r2], mend = length t\<rparr>
               else None))"

definition spec_task :: "ustring \<Rightarrow> rmatch option" where
  \<comment> \<open>Modelled from the spec: RE_TASK, groups 1 to 3 of an explicitly numbered task and
      groups 4 and 5 of a continuation.\<close>
  "spec_task t =
     (case split_number t of
        Some (n1, r1) \<Rightarrow>
          (case split_number r1 of
             None \<Rightarrow> None
           | Some (n2, r2) \<Rightarrow>
               (case split_number r2 of
                  None \<Rightarrow> None
                | Some (n3, r3) \<Rightarrow>
                    if title_like r3
                    then Some \<lparr>groups = [Some t, Some (n1 @ n2), Some n3, Some r3, None, None],
                               mend = length t\<rparr>
                    else None))
      | None \<Rightarrow>
          (case t of
             c # d # r \<Rightarrow>
               if d = 0x29 \<and> \<not> isdigit c \<and> \<not> isspace c
               then Some \<lparr>groups = [Some t, None, None, None, Some [c, d], Some r],
                          mend = length t\<rparr>
               else None
           | _ \<Rightarrow> None))"

definition spec_task_id :: "ustring \<Rightarrow> rmatch option" where
  \<comment> \<open>Modelled from the spec: RE_TASK_ID, the whole number and the optional sub-part.\<close>
  "spec_task_id s =
     (let ds = takeWhile isdigit s; r = dropWhile isdigit s;
          sub = (if r \<noteq> [] \<and> hd r = 0x2E then tl r else r)
      in if ds = [] then None
         else if sub = [] then Some \<lparr>groups = [Some ds, None, None], mend = length ds\<rparr>
         else Some \<lparr>groups = [Some s, Some ds, Some sub], mend = length s\<rparr>)"

fun split_on :: "nat \<Rightarrow> ustring \<Rightarrow> ustring list" where
  "split_on c [] = [[]]"
| "split_on c (x # xs) =
     (if x = c then [] # split_on c xs
      else (case split_on c xs of [] \<Rightarrow> [[x]] | l # ls \<Rightarrow> (x # l) # ls))"

fun search_lines :: "ustring \<Rightarrow> nat \<Rightarrow> ustring list \<Rightarrow> rmatch option" where
  "search_lines key off [] = None"
| "search_lines key off (l # ls) =
     (if take (length key) l = key
      then Some \<lparr>groups = [Some l, Some (drop (length key) l)], mend = off + length l\<rparr>
      else search_lines key (off + length l + 1) ls)"

definition str_int :: "int \<Rightarrow> ustring" where
  "str_int n = (if n < 0 then 0x2D # str_nat (nat (- n)) else str_nat (nat n))"

definition spec_answer_text :: "int \<Rightarrow> ustring \<Rightarrow> rmatch option" where
  \<comment> \<open>Modelled from the spec: the search of the task number followed by RE_ANSWER_TEXT.\<close>
  "spec_answer_text n text = search_lines (str_int n @ [0x2E]) 0 (split_on 0x0A text)"

fun search_key :: "ustring \<Rightarrow> nat \<Rightarrow> ustring \<Rightarrow> rmatch option" where
  "search_key key off [] = None"
| "search_key key off (c # cs) =
     (if take (length key) (c # cs) = key
      then (let g = takeWhile (\<lambda>x. x \<noteq> 0x3B) (drop (length key) (c # cs))
            in Some \<lparr>groups = [Some (key @ g), Some g], mend = off + length key + length g\<rparr>)
      else search_key key (off + 1) cs)"

definition spec_part_answer :: "ustring option \<Rightarrow> ustring \<Rightarrow> pyerror + rmatch option" where
  \<comment> \<open>Modelled from the spec: the search of the sub-part followed by RE_PART_ANSWER.\<close>
  "spec_part_answer p text = Inr (search_key (fstr p @ [0x29]) 0 text)"

definition K0 :: constants where
  \<comment> \<open>Modelled from the spec: the module constants, with None for ABSENT.\<close>
  "K0 =
     \<lparr>RE_ANSWER_TEXT = spec_answer_text,
      RE_CHAPTER = spec_chapter,
      RE_PART_ANSWER = spec_part_answer,
      RE_SUPREME_CHAPTER = spec_supreme_chapter,
      RE_TASK = spec_task,
      RE_TASK_ID = spec_task_id,
      ABSENT = PNone,
      PY_int = spec_int,
      PY_lower = spec_lower\<rparr>"

text \<open>The equations that evaluate the program on a concrete document.\<close>

lemmas K0_eval = K0_def spec_int_def spec_lower_def split_number_def title_like_def
  spec_supreme_chapter_def spec_chapter_def spec_task_def spec_task_id_def
  spec_answer_text_def spec_part_answer_def str_int_def isdigit_def isspace_def
  strip_def ustr_def fstr_def truthy_def endswith_dot_def group_def Let_def

lemmas parser_eval = parser_def parser_loop.simps parser_step_def initial_state_def
  find_next_chapter_def find_next_task.simps get_chapter_data_def get_task_data_def
  new_task_def last_elem_def previous_id_of_def collect_answers.simps
  answers_title_def contents_title_def str_nat.simps

lemmas answer_eval = answer_parser_def answer_loop.simps answer_step_def
  get_answer_text_def get_answer_part_def set_answer_def int_group0_def

text \<open>
  Two rules that keep the evaluation of the answer loop finite: the continuation of a
  \<open>bindE\<close> is simplified only once its first argument is a value, and \<open>str_nat\<close>
  is unfolded on numerals only.
\<close>

lemma bindE_cong_weak: "m = m' \<Longrightarrow> bindE m f = bindE m' f"
  by simp

lemma str_nat_numeral:
  "str_nat (numeral k) =
     (if (numeral k :: nat) < 10 then [48 + numeral k]
      else str_nat (numeral k div 10) @ [48 + numeral k mod 10])"
  by (rule str_nat.simps)

lemma str_nat_small: "str_nat 0 = [48]" "str_nat 1 = [49]" "str_nat (Suc 0) = [49]"
  by (simp_all add: str_nat.simps)

lemmas str_nat_eval = str_nat_numeral str_nat_small

section \<open>Example documents\<close>

text \<open>Documents, records and loop states on which the theorems below are instantiated.\<close>

definition numbers_chapter :: chapter_data where
  "numbers_chapter = \<lparr>id_chapter = 1, name = ustr ''1. Numbers'', parent = 0\<rparr>"

definition sums_chapter :: chapter_data where
  "sums_chapter = \<lparr>id_chapter = 2, name = ustr ''1.1. Sums'', parent = 1\<rparr>"

definition after_headings :: pstate where
  "after_headings =
     \<lparr>chapters_data = [numbers_chapter, sums_chapter], tasks_data = [], answers_text = [],
      index = 2, current_chapter = 1, supreme_chapter_id = 1, current_id = 3\<rparr>"

definition unrecognised_doc :: "ustring list" where
  "unrecognised_doc = [ustr ''1. Numbers'', ustr '' 1.1. Sums '', ustr ''???'']"

definition how_many_task :: task_data where
  "how_many_task = new_task 2 (ustr ''1.1.1'') (Some (ustr '' How many?''))"

definition after_task :: pstate where
  "after_task =
     \<lparr>chapters_data = [numbers_chapter, sums_chapter], tasks_data = [how_many_task],
      answers_text = [], index = 3, current_chapter = 1, supreme_chapter_id = 1,
      current_id = 3\<rparr>"

definition answers_doc :: "ustring list" where
  "answers_doc =
     [ustr ''1. Numbers'', ustr ''1.1. Sums'', ustr ''1.1.1. How many?'', answers_title,
      ustr ''1. five'', ustr ''2. six'', 0x20 # 0x41E # tl contents_title,
      ustr ''1. Numbers'']"

definition and_now_task :: task_data where
  "and_now_task = new_task 2 (ustr ''1.1.b'') (Some (ustr '' And now?''))"

definition more_task :: task_data where
  "more_task = new_task 2 (ustr ''1.1.c'') (Some (ustr '' More?''))"

definition how_many_match :: rmatch where
  "how_many_match =
     \<lparr>groups = [Some (ustr ''1.1.1. How many?''), Some (ustr ''1.1.''), Some (ustr ''1.''),
        Some (ustr '' How many?''), None, None],
      mend = 16\<rparr>"

definition continuation_doc :: "ustring list" where
  "continuation_doc =
     [ustr ''1. Numbers'', ustr ''1.1. Sums'', ustr ''1.1.1. How many?'', ustr ''b) And now?'',
      ustr ''c) More?'', answers_title]"

definition rest_task :: task_data where
  "rest_task = new_task 2 (ustr ''1.2.1'') (Some (ustr '' Rest?''))"

definition mixed_run_doc :: "ustring list" where
  "mixed_run_doc =
     [ustr ''1. Numbers'', ustr ''1.1. Sums'', ustr ''1.1.1. How many?'', ustr ''b) And now?'',
      ustr ''1.2.1. Rest?'', ustr ''c) More?'', answers_title]"

lemma parser_answers_doc:
  "parser K0 answers_doc =
     Inr ([how_many_task\<lparr>answer := Some PNone\<rparr>], [numbers_chapter, sums_chapter],
          authors_data)"
  by (simp add: answers_doc_def how_many_task_def numbers_chapter_def sums_chapter_def
      K0_eval parser_eval answer_eval)

text \<open>
  Answers and tasks. The first answers block is the paragraph \<open>14.\<close>, a space, and the
  two parts \<open>a) 5; b) 7\<close> with the Cyrillic letters U+0430 and U+0431 for \<open>a\<close> and
  \<open>b\<close>; the tasks 14a, 14b and 15a carry these letters as sub-parts.
\<close>

definition answers_14 :: "ustring list" where
  "answers_14 =
     [[0x31, 0x34, 0x2E, 0x20, 0x430, 0x29, 0x20, 0x35, 0x3B, 0x20, 0x431, 0x29, 0x20, 0x37]]"

definition block_14 :: ustring where
  "block_14 = [0x430, 0x29, 0x20, 0x35, 0x3B, 0x20, 0x431, 0x29, 0x20, 0x37]"

definition task_14 :: task_data where
  "task_14 = new_task 2 (ustr ''14'') None"

definition task_14a :: task_data where
  "task_14a = new_task 2 [0x31, 0x34, 0x430] None"

definition task_14b :: task_data where
  "task_14b = new_task 2 [0x31, 0x34, 0x431] None"

definition task_15a :: task_data where
  "task_15a = new_task 2 [0x31, 0x35, 0x430] None"

definition answered_14 :: "task_data list" where
  "answered_14 =
     [task_14\<lparr>answer := Some PNone\<rparr>, task_14a\<lparr>answer := Some (PStr (ustr ''5''))\<rparr>,
      task_14b\<lparr>answer := Some (PStr (ustr ''7''))\<rparr>]"

definition match_14 :: rmatch where
  "match_14 = \<lparr>groups = [Some (ustr ''14''), None, None], mend = 2\<rparr>"

definition match_14a :: rmatch where
  "match_14a =
     \<lparr>groups = [Some [0x31, 0x34, 0x430], Some (ustr ''14''), Some [0x430]], mend = 3\<rparr>"

definition match_14b :: rmatch where
  "match_14b =
     \<lparr>groups = [Some [0x31, 0x34, 0x431], Some (ustr ''14''), Some [0x431]], mend = 3\<rparr>"

definition answers_12 :: "ustring list" where
  "answers_12 = [ustr ''12. 42 cm'', ustr ''13. 7'']"

definition task_12 :: task_data where
  "task_12 = new_task 2 (ustr ''12'') None"

definition task_13 :: task_data where
  "task_13 = new_task 2 (ustr ''13'') None"

definition answered_12 :: "task_data list" where
  "answered_12 =
     [task_12\<lparr>answer := Some (PStr (ustr ''42 cm''))\<rparr>,
      task_13\<lparr>answer := Some (PStr (ustr ''7''))\<rparr>]"

lemmas example_defs = answers_14_def block_14_def task_14_def task_14a_def task_14b_def
  task_15a_def answered_14_def match_14_def match_14a_def match_14b_def answers_12_def task_12_def
  task_13_def answered_12_def new_task_def

lemma answer_parser_14: "answer_parser K0 answers_14 [task_14, task_14a, task_14b] = Inr answered_14"
  by (simp add: example_defs K0_eval answer_eval str_nat_eval cong: bindE_cong_weak)

section \<open>Task ids\<close>

definition exclusive_match :: rmatch where
  "exclusive_match = \<lparr>groups = [Some (ustr ''5. Text''), Some (ustr ''5.''), Some (ustr '' Text'')],
     mend = 7\<rparr>"

definition continuation_match :: rmatch where
  "continuation_match =
     \<lparr>groups = [Some (ustr ''b) y''), None, None, None, Some (ustr ''b)''), Some (ustr '' y'')],
      mend = 4\<rparr>"

definition explicit_match :: rmatch where
  "explicit_match =
     \<lparr>groups = [Some (ustr ''14.a) x''), Some (ustr ''14.''), Some (ustr ''a)''),
        Some (ustr '' x''), None, None],
      mend = 7\<rparr>"

text \<open>
  Claim C4. Whenever \<open>get_task_data\<close> returns a task, its \<open>id_tasks_book\<close> is the
  assembled id string without its final character, in each of the three cases: for an
  exclusive task the assembled string is group 1; for a continuation with an implicit
  number (group 1 is \<open>None\<close>) it is the previous id, with a dot appended when it does
  not end in one, followed by group 4; for an explicitly numbered task it is group 1
  followed by group 2. So the id and the stripped final character together give back the
  assembled string.
\<close>

theorem get_task_data_strips_final_char:
  assumes "get_task_data m p previous exclusive = Inr t"
  shows "\<exists>assembled.
           id_tasks_book t = butlast assembled \<and>
           (assembled \<noteq> [] \<longrightarrow> id_tasks_book t @ [last assembled] = assembled) \<and>
           (exclusive \<longrightarrow> group m 1 = Some assembled) \<and>
           (\<not> exclusive \<and> group m 1 = None \<longrightarrow>
              (\<exists>prev g4. previous = Some prev \<and> group m 4 = Some g4 \<and>
                 assembled = (if endswith_dot prev then prev else prev @ [0x2E]) @ g4)) \<and>
           (\<not> exclusive \<and> group m 1 \<noteq> None \<longrightarrow>
              (\<exists>g1 g2. group m 1 = Some g1 \<and> group m 2 = Some g2 \<and> assembled = g1 @ g2))"
proof (cases exclusive)
  case True
  with assms obtain g1 where "group m 1 = Some g1" and "t = new_task p (butlast g1) (group m 2)"
    by (auto simp: get_task_data_def split: option.splits)
  with True show ?thesis
    by (intro exI [of _ g1]) (simp add: new_task_def)
next
  case False
  show ?thesis
  proof (cases "group m 1")
    case None
    with False assms obtain prev g4 where "previous = Some prev" and "group m 4 = Some g4"
      and "t = new_task p
             (butlast ((if endswith_dot prev then prev else prev @ [0x2E]) @ g4)) (group m 5)"
      by (auto simp: get_task_data_def split: option.splits)
    with False None show ?thesis
      by (intro exI [of _ "(if endswith_dot prev then prev else prev @ [0x2E]) @ g4"])
        (simp add: new_task_def)
  next
    case (Some g1)
    with False assms obtain g2 where "group m 2 = Some g2"
      and "t = new_task p (butlast (g1 @ g2)) (group m 3)"
      by (auto simp: get_task_data_def split: option.splits)
    with False Some show ?thesis
      by (intro exI [of _ "g1 @ g2"]) (simp add: new_task_def)
  qed
qed

theorem get_task_data_strips_final_char_witness:
  "(\<exists>t. get_task_data exclusive_match 1 None True = Inr t \<and> id_tasks_book t = ustr ''5'') \<and>
   (\<exists>t. get_task_data continuation_match 2 (Some (ustr ''14'')) False = Inr t \<and>
      id_tasks_book t = ustr ''14.b'') \<and>
   (\<exists>t. get_task_data explicit_match 2 (Some (ustr ''13.'')) False = Inr t \<and>
      id_tasks_book t = ustr ''14.a'')"
proof -
  have e1: "get_task_data exclusive_match 1 None True =
      Inr (new_task 1 (ustr ''5'') (Some (ustr '' Text'')))"
    by (simp add: get_task_data_def exclusive_match_def group_def ustr_def)
  have e2: "get_task_data continuation_match 2 (Some (ustr ''14'')) False =
      Inr (new_task 2 (ustr ''14.b'') (Some (ustr '' y'')))"
    by (simp add: get_task_data_def continuation_match_def group_def ustr_def endswith_dot_def)
  have e3: "get_task_data explicit_match 2 (Some (ustr ''13.'')) False =
      Inr (new_task 2 (ustr ''14.a'') (Some (ustr '' x'')))"
    by (simp add: get_task_data_def explicit_match_def group_def ustr_def)
  from get_task_data_strips_final_char [OF e1]
  have "id_tasks_book (new_task 1 (ustr ''5'') (Some (ustr '' Text''))) = ustr ''5''"
    by (auto simp: exclusive_match_def group_def ustr_def)
  moreover from get_task_data_strips_final_char [OF e2]
  have "id_tasks_book (new_task 2 (ustr ''14.b'') (Some (ustr '' y''))) = ustr ''14.b''"
    by (auto simp: continuation_match_def group_def ustr_def endswith_dot_def)
  moreover from get_task_data_strips_final_char [OF e3]
  have "id_tasks_book (new_task 2 (ustr ''14.a'') (Some (ustr '' x''))) = ustr ''14.a''"
    by (auto simp: explicit_match_def group_def ustr_def)
  ultimately show ?thesis
    using e1 e2 e3 by simp
qed

section \<open>Unrecognised paragraphs\<close>

text \<open>
  Claim C3. When the main loop stands on a paragraph (a top-level paragraph) that
  matches neither the supreme-chapter pattern, nor the sub-chapter pattern, nor the task
  pattern, and is not the title of the answers section, \<open>parser\<close> ends with the
  ValueError whose message is \<open>index:\<close>, the index of the paragraph, four spaces and
  its text. The result is the error alone: no tasks, chapters or authors are returned.
\<close>

theorem unrecognised_paragraph_is_fatal:
  assumes "loop_state K (map strip doc) n = Some st"
    and "index st < length doc"
    and "RE_SUPREME_CHAPTER K (strip (doc ! index st)) = None"
    and "RE_CHAPTER K (strip (doc ! index st)) = None"
    and "RE_TASK K (strip (doc ! index st)) = None"
    and "strip (doc ! index st) \<noteq> answers_title"
  shows "parser K doc =
           Inl (ValueError (ustr ''index:'' @ str_nat (index st) @ ustr ''    '' @
                  strip (doc ! index st)))"
proof -
  let ?data = "map strip doc"
  have "parser_step K ?data st =
      Inl (ValueError (ustr ''index:'' @ str_nat (index st) @ ustr ''    '' @
             strip (doc ! index st)))"
    using assms(2-6) by (simp add: parser_step_def)
  then have "parser_loop K ?data st =
      Inl (ValueError (ustr ''index:'' @ str_nat (index st) @ ustr ''    '' @
             strip (doc ! index st)))"
    using assms(2) by (subst parser_loop.simps) simp
  with parser_loop_from_state [OF assms(1)] show ?thesis
    by (simp add: parser_def)
qed


theorem unrecognised_paragraph_is_fatal_witness:
  "parser K0 unrecognised_doc = Inl (ValueError (ustr ''index:2    ???''))"
proof -
  have s: "loop_state K0 (map strip unrecognised_doc) (Suc 0) = Some after_headings"
    by (simp add: unrecognised_doc_def after_headings_def numbers_chapter_def
        sums_chapter_def K0_eval parser_eval)
  show ?thesis
    using unrecognised_paragraph_is_fatal [OF s]
    by (simp add: unrecognised_doc_def after_headings_def K0_eval answers_title_def
        str_nat.simps)
qed

section \<open>The answers section\<close>

text \<open>
  Claim C6. When the main loop stands on a paragraph equal to the title of the answers
  section (and the title matches none of the three patterns, which are tried first), the
  loop ends there: its final state has the chapters and tasks emitted so far and nothing
  more, and its answers block is exactly the paragraphs after the title, in order and
  unchanged, up to the first paragraph whose lowercased and stripped text is the contents
  title, or up to the end of the document. \<open>parser\<close> then returns these tasks and
  chapters, after reconciling the answers when the block is not empty.
\<close>

theorem answers_section_collected:
  assumes "loop_state K (map strip doc) n = Some st"
    and "index st < length doc"
    and "strip (doc ! index st) = answers_title"
    and "RE_SUPREME_CHAPTER K answers_title = None"
    and "RE_CHAPTER K answers_title = None"
    and "RE_TASK K answers_title = None"
  shows "parser_loop K (map strip doc) initial_state =
           Inr (st\<lparr>answers_text := answers_block K (map strip doc) (index st + 1),
                  index := index st + 1 + length (answers_block K (map strip doc) (index st + 1))\<rparr>) \<and>
         parser K doc =
           (if answers_block K (map strip doc) (index st + 1) = []
            then Inr (tasks_data st, chapters_data st, authors_data)
            else bindE (answer_parser K (answers_block K (map strip doc) (index st + 1))
                          (tasks_data st))
                   (\<lambda>tasks. Inr (tasks, chapters_data st, authors_data)))"
proof -
  let ?data = "map strip doc"
  let ?block = "answers_block K ?data (index st + 1)"
  let ?st' = "st\<lparr>answers_text := ?block, index := index st + 1 + length ?block\<rparr>"
  have empty: "answers_text st = []"
    using assms(1) by (rule loop_state_answers_text)
  have "parser_step K ?data st = Inr (Break ?st')"
    using assms(2-6) empty by (simp add: parser_step_def collect_answers_takeWhile)
  then have "parser_loop K ?data st = Inr ?st'"
    using assms(2) by (subst parser_loop.simps) simp
  with parser_loop_from_state [OF assms(1)]
  have loop: "parser_loop K ?data initial_state = Inr ?st'"
    by simp
  then show ?thesis
    by (simp add: parser_def)
qed

theorem answers_section_collected_witness:
  "answers_block K0 (map strip answers_doc) 4 = [ustr ''1. five'', ustr ''2. six''] \<and>
   parser_loop K0 (map strip answers_doc) initial_state =
     Inr (after_task\<lparr>answers_text := [ustr ''1. five'', ustr ''2. six''], index := 6\<rparr>) \<and>
   parser K0 answers_doc =
     Inr ([how_many_task\<lparr>answer := Some PNone\<rparr>], [numbers_chapter, sums_chapter],
          authors_data)"
proof -
  have s: "loop_state K0 (map strip answers_doc) (Suc (Suc 0)) = Some after_task"
    by (simp add: answers_doc_def after_task_def how_many_task_def numbers_chapter_def
        sums_chapter_def K0_eval parser_eval)
  have b: "answers_block K0 (map strip answers_doc) 4 = [ustr ''1. five'', ustr ''2. six'']"
    by (simp add: answers_block_def answers_doc_def K0_eval answers_title_def
        contents_title_def)
  have a: "answer_parser K0 [ustr ''1. five'', ustr ''2. six''] [how_many_task] =
      Inr [how_many_task\<lparr>answer := Some PNone\<rparr>]"
    by (simp add: how_many_task_def new_task_def K0_eval answer_eval str_nat.simps)
  show ?thesis
    using answers_section_collected [OF s] b a
    by (simp add: answers_doc_def after_task_def K0_eval answers_title_def)
qed

section \<open>Chapter ids and parents\<close>

text \<open>
  Claim C7. \<open>chapters_ok cs\<close> says of a list of chapter records that the record at
  position \<open>k\<close> (from 0) has the id \<open>k + 1\<close>, and that its parent is 0 or the id of a
  record at an earlier position. This holds of the chapters emitted at any moment of the
  main loop, and of the chapters that \<open>parser\<close> returns: ids are assigned from 1
  upwards in the order of discovery, and no parent is a forward reference.
\<close>

theorem chapter_ids_and_parents:
  "(loop_state K (map strip doc) n = Some st \<longrightarrow> chapters_ok (chapters_data st)) \<and>
   (parser K doc = Inr (tasks, chapters, authors) \<longrightarrow> chapters_ok chapters)"
proof (intro conjI impI)
  have init: "chapter_inv initial_state"
    by (simp add: chapter_inv_def initial_state_def chapters_ok_def)
  {
    assume "loop_state K (map strip doc) n = Some st"
    from loop_state_invariant [of chapter_inv, OF parser_step_chapter_inv init this]
    show "chapters_ok (chapters_data st)"
      by (simp add: chapter_inv_def)
  }
  {
    assume "parser K doc = Inr (tasks, chapters, authors)"
    then obtain s where l: "parser_loop K (map strip doc) initial_state = Inr s"
      and c: "chapters = chapters_data s"
      by (rule parser_result_state)
    from parser_loop_invariant [of chapter_inv, OF parser_step_chapter_inv init l] c
    show "chapters_ok chapters"
      by (simp add: chapter_inv_def)
  }
qed

theorem chapter_ids_and_parents_witness:
  "parser K0 answers_doc =
     Inr ([how_many_task\<lparr>answer := Some PNone\<rparr>], [numbers_chapter, sums_chapter],
          authors_data) \<and>
   chapters_ok [numbers_chapter, sums_chapter] \<and>
   id_chapter numbers_chapter = 1 \<and> parent numbers_chapter = 0 \<and>
   id_chapter sums_chapter = 2 \<and> parent sums_chapter = id_chapter numbers_chapter"
  using chapter_ids_and_parents [of K0 answers_doc 0 initial_state
      "[how_many_task\<lparr>answer := Some PNone\<rparr>]" "[numbers_chapter, sums_chapter]" authors_data]
    parser_answers_doc
  by (simp add: numbers_chapter_def sums_chapter_def)

section \<open>Tasks and their chapters\<close>

text \<open>
  Claim C10, as amended. When the main loop stands on a paragraph while no chapter has
  been emitted, and the paragraph is not a sub-chapter line and is either a task line
  that is no supreme-chapter line, or a supreme-chapter line (with a number that
  \<open>int\<close> reads) which is not taken as the next chapter, then \<open>parser\<close> fails with
  IndexError and not with the ValueError of an unrecognised paragraph. At every moment
  of the main loop, and in the result of \<open>parser\<close>, the \<open>paragraph\<close> of every task is
  the id of a chapter emitted so far. The parser completes normally only on documents
  that are empty or whose first paragraph, trimmed, is a chapter heading (a sub-chapter
  line, or a supreme-chapter line with the number 1 that is no task line) or the title
  of the answers section (matching none of the three patterns).
\<close>

theorem task_before_chapter_fails:
  "(loop_state K (map strip doc) n = Some st \<and> chapters_data st = [] \<and> index st < length doc \<and>
    RE_CHAPTER K (strip (doc ! index st)) = None \<and>
    (RE_SUPREME_CHAPTER K (strip (doc ! index st)) = None \<and>
       RE_TASK K (strip (doc ! index st)) \<noteq> None \<or>
     (\<exists>sm g1 v. RE_SUPREME_CHAPTER K (strip (doc ! index st)) = Some sm \<and>
        group sm 1 = Some g1 \<and> PY_int K (butlast g1) = Inr v \<and>
        \<not> (v = current_chapter st + 1 \<and> RE_TASK K (strip (doc ! index st)) = None)))
    \<longrightarrow> parser K doc = Inl IndexError) \<and>
   (loop_state K (map strip doc) n = Some st
    \<longrightarrow> (\<forall>t\<in>set (tasks_data st). \<exists>c\<in>set (chapters_data st). paragraph_id t = id_chapter c)) \<and>
   (parser K doc = Inr (tasks, chapters, authors)
    \<longrightarrow> (\<forall>t\<in>set tasks. \<exists>c\<in>set chapters. paragraph_id t = id_chapter c)) \<and>
   (parser K doc = Inr (tasks, chapters, authors)
    \<longrightarrow> doc = [] \<or>
        RE_CHAPTER K (strip (hd doc)) \<noteq> None \<or>
        (\<exists>sm g1. RE_SUPREME_CHAPTER K (strip (hd doc)) = Some sm \<and> group sm 1 = Some g1 \<and>
           PY_int K (butlast g1) = Inr 1 \<and> RE_TASK K (strip (hd doc)) = None) \<or>
        (strip (hd doc) = answers_title \<and> RE_SUPREME_CHAPTER K answers_title = None \<and>
           RE_CHAPTER K answers_title = None \<and> RE_TASK K answers_title = None))"
proof (intro conjI impI)
  let ?data = "map strip doc"
  let ?P = "\<lambda>s. tasks_ok (tasks_data s) (chapters_data s)"
  have init: "?P initial_state"
    by (simp add: tasks_ok_def initial_state_def)
  {
    assume a: "loop_state K ?data n = Some st \<and> chapters_data st = [] \<and> index st < length doc \<and>
      RE_CHAPTER K (strip (doc ! index st)) = None \<and>
      (RE_SUPREME_CHAPTER K (strip (doc ! index st)) = None \<and>
         RE_TASK K (strip (doc ! index st)) \<noteq> None \<or>
       (\<exists>sm g1 v. RE_SUPREME_CHAPTER K (strip (doc ! index st)) = Some sm \<and>
          group sm 1 = Some g1 \<and> PY_int K (butlast g1) = Inr v \<and>
          \<not> (v = current_chapter st + 1 \<and> RE_TASK K (strip (doc ! index st)) = None)))"
    then have inside: "index st < length ?data"
      and e: "chapters_data st = []"
      and ch: "RE_CHAPTER K (?data ! index st) = None"
      and cond: "RE_SUPREME_CHAPTER K (?data ! index st) = None \<and>
           RE_TASK K (?data ! index st) \<noteq> None \<or>
         (\<exists>sm g1 v. RE_SUPREME_CHAPTER K (?data ! index st) = Some sm \<and>
            group sm 1 = Some g1 \<and> PY_int K (butlast g1) = Inr v \<and>
            \<not> (v = current_chapter st + 1 \<and> RE_TASK K (?data ! index st) = None))"
      by simp_all
    from parser_step_no_chapter [OF e ch cond]
    have "parser_step K ?data st = Inl IndexError" .
    with inside have "parser_loop K ?data st = Inl IndexError"
      by (subst parser_loop.simps) simp
    moreover from a have "parser_loop K ?data initial_state = parser_loop K ?data st"
      using parser_loop_from_state [of K ?data n st] by simp
    ultimately show "parser K doc = Inl IndexError"
      by (simp add: parser_def)
  }
  {
    assume "loop_state K ?data n = Some st"
    from loop_state_invariant [of ?P, OF parser_step_tasks_ok init this]
    show "\<forall>t\<in>set (tasks_data st). \<exists>c\<in>set (chapters_data st). paragraph_id t = id_chapter c"
      by (simp add: tasks_ok_def)
  }
  {
    assume "parser K doc = Inr (tasks, chapters, authors)"
    then obtain s where l: "parser_loop K ?data initial_state = Inr s"
      and c: "chapters = chapters_data s"
      and p: "map paragraph_id tasks = map paragraph_id (tasks_data s)"
      by (rule parser_result_state)
    from parser_loop_invariant [of ?P, OF parser_step_tasks_ok init l]
    have ok: "\<forall>q\<in>set (tasks_data s). \<exists>c\<in>set (chapters_data s). paragraph_id q = id_chapter c"
      by (simp add: tasks_ok_def)
    from p have same: "paragraph_id ` set tasks = paragraph_id ` set (tasks_data s)"
      by (metis set_map)
    show "\<forall>t\<in>set tasks. \<exists>c\<in>set chapters. paragraph_id t = id_chapter c"
    proof
      fix t assume "t \<in> set tasks"
      with same obtain q where "q \<in> set (tasks_data s)" and "paragraph_id q = paragraph_id t"
        by (metis imageE imageI)
      with ok c show "\<exists>c\<in>set chapters. paragraph_id t = id_chapter c"
        by metis
    qed
  }
  {
    assume ok: "parser K doc = Inr (tasks, chapters, authors)"
    show "doc = [] \<or>
        RE_CHAPTER K (strip (hd doc)) \<noteq> None \<or>
        (\<exists>sm g1. RE_SUPREME_CHAPTER K (strip (hd doc)) = Some sm \<and> group sm 1 = Some g1 \<and>
           PY_int K (butlast g1) = Inr 1 \<and> RE_TASK K (strip (hd doc)) = None) \<or>
        (strip (hd doc) = answers_title \<and> RE_SUPREME_CHAPTER K answers_title = None \<and>
           RE_CHAPTER K answers_title = None \<and> RE_TASK K answers_title = None)"
    proof (cases "doc = []")
      case True
      then show ?thesis by simp
    next
      case False
      then have first: "?data ! 0 = strip (hd doc)"
        by (cases doc) simp_all
      from parser_first_step [OF ok False] obtain r where
        "parser_step K ?data initial_state = Inr r"
        by blast
      from parser_step_initial [OF this] show ?thesis
        unfolding first by auto
    qed
  }
qed

theorem task_before_chapter_fails_witness:
  "parser K0 [ustr ''1.1.1. How many?''] = Inl IndexError \<and>
   parser K0 answers_doc =
     Inr ([how_many_task\<lparr>answer := Some PNone\<rparr>], [numbers_chapter, sums_chapter],
          authors_data) \<and>
   paragraph_id (how_many_task\<lparr>answer := Some PNone\<rparr>) = id_chapter sums_chapter \<and>
   (\<exists>sm g1. RE_SUPREME_CHAPTER K0 (ustr ''1. Numbers'') = Some sm \<and> group sm 1 = Some g1 \<and>
      PY_int K0 (butlast g1) = Inr 1 \<and> RE_TASK K0 (ustr ''1. Numbers'') = None)"
proof -
  let ?doc = "[ustr ''1.1.1. How many?'']"
  have a: "loop_state K0 (map strip ?doc) 0 = Some initial_state \<and>
      chapters_data initial_state = [] \<and> index initial_state < length ?doc \<and>
      RE_CHAPTER K0 (strip (?doc ! index initial_state)) = None \<and>
      (RE_SUPREME_CHAPTER K0 (strip (?doc ! index initial_state)) = None \<and>
         RE_TASK K0 (strip (?doc ! index initial_state)) \<noteq> None \<or>
       (\<exists>sm g1 v. RE_SUPREME_CHAPTER K0 (strip (?doc ! index initial_state)) = Some sm \<and>
          group sm 1 = Some g1 \<and> PY_int K0 (butlast g1) = Inr v \<and>
          \<not> (v = current_chapter initial_state + 1 \<and>
             RE_TASK K0 (strip (?doc ! index initial_state)) = None)))"
    by (simp add: initial_state_def K0_eval)
  from task_before_chapter_fails [THEN conjunct1, THEN mp, OF a]
  have "parser K0 ?doc = Inl IndexError" .
  moreover from task_before_chapter_fails [THEN conjunct2, THEN conjunct2, THEN conjunct1,
      THEN mp, OF parser_answers_doc]
  have "paragraph_id (how_many_task\<lparr>answer := Some PNone\<rparr>) = id_chapter sums_chapter"
    by (simp add: how_many_task_def new_task_def numbers_chapter_def sums_chapter_def)
  moreover have first: "strip (hd answers_doc) = ustr ''1. Numbers''"
    "answers_doc \<noteq> []" "RE_CHAPTER K0 (ustr ''1. Numbers'') = None"
    "ustr ''1. Numbers'' \<noteq> answers_title"
    by (simp_all add: answers_doc_def answers_title_def K0_eval)
  from task_before_chapter_fails [THEN conjunct2, THEN conjunct2, THEN conjunct2,
      THEN mp, OF parser_answers_doc]
  have "\<exists>sm g1. RE_SUPREME_CHAPTER K0 (ustr ''1. Numbers'') = Some sm \<and> group sm 1 = Some g1 \<and>
      PY_int K0 (butlast g1) = Inr 1 \<and> RE_TASK K0 (ustr ''1. Numbers'') = None"
    unfolding first(1) using first(2-4) by simp
  ultimately show ?thesis
    using parser_answers_doc by simp
qed

text \<open>
  The claim as it was stated says that the parser completes normally only on streams
  whose first structural element is a chapter heading. The document whose only paragraph
  is the title of the answers section is parsed without error, and that paragraph is no
  chapter heading; the empty document is parsed without error as well.
\<close>

theorem task_before_chapter_counterexample:
  "parser K0 [answers_title] = Inr ([], [], authors_data) \<and>
   RE_SUPREME_CHAPTER K0 answers_title = None \<and> RE_CHAPTER K0 answers_title = None \<and>
   parser K0 [] = Inr ([], [], authors_data)"
  by (simp add: K0_eval parser_eval)

section \<open>Continuations with an implicit number\<close>

text \<open>
  \<open>spec_continuation_id\<close> is the id that the specification gives to a continuation
  with an implicit number: the id of the previous task, with a dot appended if it does
  not end in one, followed by the suffix of the continuation, without the final
  character.
\<close>

definition spec_continuation_id :: "ustring \<Rightarrow> ustring \<Rightarrow> ustring" where
  "spec_continuation_id previous_task_id suffix =
     butlast ((if endswith_dot previous_task_id then previous_task_id
               else previous_task_id @ [0x2E]) @ suffix)"

text \<open>
  Claim C2, as amended. Let the main loop handle a task paragraph (the head of a run: it
  matches the task pattern and is no sub-chapter line). The loop emits the task of the
  head and then, through \<open>find_next_task\<close>, one task for each paragraph after it, up
  to the first paragraph that is no task line or is a supreme-chapter line; that
  paragraph exists, and the loop goes on from it. The id of a task with an implicit
  number (group 1 is \<open>None\<close>) is \<open>spec_continuation_id\<close> of a previous id and of the
  task's own suffix (group 4); the id of a task with an explicit number is its groups 1
  and 2 without the final character. The previous id is not the id of the task before:
  for the head it is the book id of the task emitted last before it (the head then has
  a suffix group); for every continuation of the run it is one and the same value, the
  leading-number group (group 1) of the head, or, when the head has a suffix group and
  is no supreme-chapter line, the book id of the task emitted last before the head. It
  is not updated inside the run, so all implicit continuations of a run have the same
  leading number, that of the head, also after an explicitly numbered task inside the
  run. All tasks of the run have the id of the last chapter as their chapter.
\<close>

theorem continuation_ids:
  assumes "parser_step K data st = Inr (Continue st')"
    and "RE_TASK K (data ! index st) = Some head"
    and "RE_CHAPTER K (data ! index st) = None"
  shows "\<exists>head_previous run_previous t new.
           head_previous =
             (if truthy (group head 4) then Some (id_tasks_book (last (tasks_data st)))
              else group head 1) \<and>
           (truthy (group head 4) \<longrightarrow> tasks_data st \<noteq> []) \<and>
           run_previous =
             (if RE_SUPREME_CHAPTER K (data ! index st) = None then head_previous
              else group head 1) \<and>
           chapters_data st \<noteq> [] \<and>
           tasks_data st' = tasks_data st @ t # new \<and>
           index st' = index st + 1 + length new \<and>
           index st' < length data \<and>
           (RE_TASK K (data ! index st') = None \<or>
            RE_SUPREME_CHAPTER K (data ! index st') \<noteq> None) \<and>
           paragraph_id t = id_chapter (last (chapters_data st)) \<and>
           (group head 1 = None \<longrightarrow>
              (\<exists>prev g4. head_previous = Some prev \<and> group head 4 = Some g4 \<and>
                 id_tasks_book t = spec_continuation_id prev g4)) \<and>
           (\<forall>g1. group head 1 = Some g1 \<longrightarrow>
              (\<exists>g2. group head 2 = Some g2 \<and> id_tasks_book t = butlast (g1 @ g2))) \<and>
           (\<forall>k<length new. \<exists>m.
              RE_TASK K (data ! (index st + 1 + k)) = Some m \<and>
              RE_SUPREME_CHAPTER K (data ! (index st + 1 + k)) = None \<and>
              paragraph_id (new ! k) = id_chapter (last (chapters_data st)) \<and>
              (group m 1 = None \<longrightarrow>
                 (\<exists>prev g4. run_previous = Some prev \<and> group m 4 = Some g4 \<and>
                    id_tasks_book (new ! k) = spec_continuation_id prev g4)) \<and>
              (\<forall>g1. group m 1 = Some g1 \<longrightarrow>
                 (\<exists>g2. group m 2 = Some g2 \<and> id_tasks_book (new ! k) = butlast (g1 @ g2))))"
proof -
  let ?hp = "if truthy (group head 4) then Some (id_tasks_book (last (tasks_data st)))
             else group head 1"
  let ?rp = "if RE_SUPREME_CHAPTER K (data ! index st) = None then ?hp else group head 1"
  have facts: "\<exists>(c::chapter_data) t i ts.
      previous_id_of (tasks_data st) head = Inr ?hp \<and>
      (truthy (group head 4) \<longrightarrow> tasks_data st \<noteq> []) \<and>
      last_elem (chapters_data st) = Inr c \<and>
      get_task_data head (id_chapter c) ?hp False = Inr t \<and>
      find_next_task K data (tasks_data st @ [t]) (index st + 1) ?rp (id_chapter c) = Inr (i, ts) \<and>
      st' = st\<lparr>tasks_data := ts, index := i\<rparr>"
  proof (cases "RE_SUPREME_CHAPTER K (data ! index st)")
    case None
    with assms have "\<exists>pid (c::chapter_data) t i ts.
        previous_id_of (tasks_data st) head = Inr pid \<and>
        last_elem (chapters_data st) = Inr c \<and>
        get_task_data head (id_chapter c) pid False = Inr t \<and>
        find_next_task K data (tasks_data st @ [t]) (index st + 1) pid (id_chapter c) = Inr (i, ts) \<and>
        st' = st\<lparr>tasks_data := ts, index := i\<rparr>"
      by (auto simp: parser_step_def Let_def elim!: bindE_Inr_E)
    then obtain pid and c :: chapter_data and t i ts where
      pid: "previous_id_of (tasks_data st) head = Inr pid"
      and rest: "last_elem (chapters_data st) = Inr c"
        "get_task_data head (id_chapter c) pid False = Inr t"
        "find_next_task K data (tasks_data st @ [t]) (index st + 1) pid (id_chapter c) = Inr (i, ts)"
        "st' = st\<lparr>tasks_data := ts, index := i\<rparr>"
      by blast
    from pid have "pid = ?hp" and "truthy (group head 4) \<longrightarrow> tasks_data st \<noteq> []"
      by (auto simp: previous_id_of_def last_elem_def elim!: bindE_Inr_E split: if_splits)
    with pid rest None show ?thesis
      by (intro exI [of _ c] exI [of _ t] exI [of _ i] exI [of _ ts]) simp
  next
    case (Some sm)
    with assms obtain g1 n where "group sm 1 = Some g1" and "PY_int K (butlast g1) = Inr n"
      by (auto simp: parser_step_def Let_def elim!: bindE_Inr_E split: option.splits)
    with Some assms have "\<exists>pid (c::chapter_data) t i ts.
        previous_id_of (tasks_data st) head = Inr pid \<and>
        last_elem (chapters_data st) = Inr c \<and>
        get_task_data head (id_chapter c) pid False = Inr t \<and>
        find_next_task K data (tasks_data st @ [t]) (index st + 1) (group head 1) (id_chapter c) =
          Inr (i, ts) \<and>
        st' = st\<lparr>tasks_data := ts, index := i\<rparr>"
      by (auto simp: parser_step_def Let_def elim!: bindE_Inr_E)
    then obtain pid and c :: chapter_data and t i ts where
      pid: "previous_id_of (tasks_data st) head = Inr pid"
      and rest: "last_elem (chapters_data st) = Inr c"
        "get_task_data head (id_chapter c) pid False = Inr t"
        "find_next_task K data (tasks_data st @ [t]) (index st + 1) (group head 1) (id_chapter c) =
          Inr (i, ts)"
        "st' = st\<lparr>tasks_data := ts, index := i\<rparr>"
      by blast
    from pid have "pid = ?hp" and "truthy (group head 4) \<longrightarrow> tasks_data st \<noteq> []"
      by (auto simp: previous_id_of_def last_elem_def elim!: bindE_Inr_E split: if_splits)
    with pid rest Some show ?thesis
      by (intro exI [of _ c] exI [of _ t] exI [of _ i] exI [of _ ts]) simp
  qed
  then obtain c :: chapter_data and t i ts where
    nonempty: "truthy (group head 4) \<longrightarrow> tasks_data st \<noteq> []"
    and c: "last_elem (chapters_data st) = Inr c"
    and t: "get_task_data head (id_chapter c) ?hp False = Inr t"
    and f: "find_next_task K data (tasks_data st @ [t]) (index st + 1) ?rp (id_chapter c) =
              Inr (i, ts)"
    and st': "st' = st\<lparr>tasks_data := ts, index := i\<rparr>"
    by blast
  from c have ne: "chapters_data st \<noteq> []" and cl: "c = last (chapters_data st)"
    by (auto simp: last_elem_def split: if_splits)
  from find_next_task_run [OF f] obtain new where ts: "ts = (tasks_data st @ [t]) @ new"
    and i: "i = index st + 1 + length new"
    and each: "\<forall>k<length new. \<exists>m. RE_TASK K (data ! (index st + 1 + k)) = Some m \<and>
        get_task_data m (id_chapter c) ?rp False = Inr (new ! k)"
    by blast
  from find_next_task_index [OF f] have inside: "i < length data" by simp
  from find_next_task_stop [OF f]
  have stop: "RE_TASK K (data ! i) = None \<or> RE_SUPREME_CHAPTER K (data ! i) \<noteq> None" .
  from find_next_task_no_supreme [OF f]
  have nosup: "\<forall>k. index st + 1 \<le> k \<and> k < i \<longrightarrow> RE_SUPREME_CHAPTER K (data ! k) = None" .
  have head_implicit: "group head 1 = None \<longrightarrow>
      (\<exists>prev g4. ?hp = Some prev \<and> group head 4 = Some g4 \<and>
         id_tasks_book t = spec_continuation_id prev g4)"
    using get_task_data_implicit [OF t] by (simp add: spec_continuation_id_def)
  have head_explicit: "\<forall>g1. group head 1 = Some g1 \<longrightarrow>
      (\<exists>g2. group head 2 = Some g2 \<and> id_tasks_book t = butlast (g1 @ g2))"
    using get_task_data_explicit [OF t] by blast
  have run: "\<forall>k<length new. \<exists>m.
      RE_TASK K (data ! (index st + 1 + k)) = Some m \<and>
      RE_SUPREME_CHAPTER K (data ! (index st + 1 + k)) = None \<and>
      paragraph_id (new ! k) = id_chapter (last (chapters_data st)) \<and>
      (group m 1 = None \<longrightarrow>
         (\<exists>prev g4. ?rp = Some prev \<and> group m 4 = Some g4 \<and>
            id_tasks_book (new ! k) = spec_continuation_id prev g4)) \<and>
      (\<forall>g1. group m 1 = Some g1 \<longrightarrow>
         (\<exists>g2. group m 2 = Some g2 \<and> id_tasks_book (new ! k) = butlast (g1 @ g2)))"
  proof (intro allI impI)
    fix k assume k: "k < length new"
    with each obtain m where m: "RE_TASK K (data ! (index st + 1 + k)) = Some m"
      and g: "get_task_data m (id_chapter c) ?rp False = Inr (new ! k)"
      by blast
    from k i nosup have s: "RE_SUPREME_CHAPTER K (data ! (index st + 1 + k)) = None"
      by simp
    have imp: "group m 1 = None \<longrightarrow>
        (\<exists>prev g4. ?rp = Some prev \<and> group m 4 = Some g4 \<and>
           id_tasks_book (new ! k) = spec_continuation_id prev g4)"
      using get_task_data_implicit [OF g] by (simp add: spec_continuation_id_def)
    have exp: "\<forall>g1. group m 1 = Some g1 \<longrightarrow>
        (\<exists>g2. group m 2 = Some g2 \<and> id_tasks_book (new ! k) = butlast (g1 @ g2))"
      using get_task_data_explicit [OF g] by blast
    from m s get_task_data_paragraph [OF g] cl imp exp
    show "\<exists>m. RE_TASK K (data ! (index st + 1 + k)) = Some m \<and>
      RE_SUPREME_CHAPTER K (data ! (index st + 1 + k)) = None \<and>
      paragraph_id (new ! k) = id_chapter (last (chapters_data st)) \<and>
      (group m 1 = None \<longrightarrow>
         (\<exists>prev g4. ?rp = Some prev \<and> group m 4 = Some g4 \<and>
            id_tasks_book (new ! k) = spec_continuation_id prev g4)) \<and>
      (\<forall>g1. group m 1 = Some g1 \<longrightarrow>
         (\<exists>g2. group m 2 = Some g2 \<and> id_tasks_book (new ! k) = butlast (g1 @ g2)))"
      by (intro exI [of _ m]) simp
  qed
  from st' ts i have a: "tasks_data st' = tasks_data st @ t # new"
    and b: "index st' = index st + 1 + length new"
    by simp_all
  from st' inside stop have d: "index st' < length data"
    and e: "RE_TASK K (data ! index st') = None \<or> RE_SUPREME_CHAPTER K (data ! index st') \<noteq> None"
    by simp_all
  from get_task_data_paragraph [OF t] cl
  have pt: "paragraph_id t = id_chapter (last (chapters_data st))" by simp
  show ?thesis
    using nonempty ne a b d e pt head_implicit head_explicit run
    by (intro exI [of _ ?hp] exI [of _ ?rp] exI [of _ t] exI [of _ new] conjI refl)
qed

theorem continuation_ids_witness:
  "parser_step K0 (map strip mixed_run_doc) after_headings =
     Inr (Continue (after_headings\<lparr>tasks_data :=
            [how_many_task, and_now_task, rest_task, more_task], index := 6\<rparr>)) \<and>
   group how_many_match 1 = Some (ustr ''1.1.'') \<and>
   id_tasks_book how_many_task = butlast (ustr ''1.1.'' @ ustr ''1.'') \<and>
   id_tasks_book and_now_task = spec_continuation_id (ustr ''1.1.'') (ustr ''b)'') \<and>
   id_tasks_book more_task = spec_continuation_id (ustr ''1.1.'') (ustr ''c)'')"
proof -
  let ?data = "map strip mixed_run_doc"
  let ?st' = "after_headings\<lparr>tasks_data :=
            [how_many_task, and_now_task, rest_task, more_task], index := 6\<rparr>"
  have step: "parser_step K0 ?data after_headings = Inr (Continue ?st')"
    by (simp add: mixed_run_doc_def after_headings_def how_many_task_def and_now_task_def
        more_task_def rest_task_def numbers_chapter_def sums_chapter_def K0_eval parser_eval)
  have head: "RE_TASK K0 (?data ! index after_headings) = Some how_many_match"
    by (simp add: mixed_run_doc_def after_headings_def how_many_match_def K0_eval)
  have no_chapter: "RE_CHAPTER K0 (?data ! index after_headings) = None"
    by (simp add: mixed_run_doc_def after_headings_def K0_eval)
  have no_supreme: "RE_SUPREME_CHAPTER K0 (?data ! index after_headings) = None"
    by (simp add: mixed_run_doc_def after_headings_def K0_eval)
  have g: "group how_many_match 1 = Some (ustr ''1.1.'')"
    "group how_many_match 2 = Some (ustr ''1.'')" "\<not> truthy (group how_many_match 4)"
    by (simp_all add: how_many_match_def group_def truthy_def)
  have b: "RE_TASK K0 (?data ! (index after_headings + 1 + 0)) =
      Some \<lparr>groups = [Some (ustr ''b) And now?''), None, None, None, Some (ustr ''b)''),
        Some (ustr '' And now?'')], mend = 11\<rparr>"
    by (simp add: mixed_run_doc_def after_headings_def K0_eval)
  have c: "RE_TASK K0 (?data ! (index after_headings + 1 + 2)) =
      Some \<lparr>groups = [Some (ustr ''c) More?''), None, None, None, Some (ustr ''c)''),
        Some (ustr '' More?'')], mend = 8\<rparr>"
    by (simp add: mixed_run_doc_def after_headings_def K0_eval)
  from continuation_ids [OF step head no_chapter] obtain head_previous run_previous t new where
    hp: "head_previous =
        (if truthy (group how_many_match 4)
         then Some (id_tasks_book (last (tasks_data after_headings)))
         else group how_many_match 1)"
    and rp: "run_previous =
        (if RE_SUPREME_CHAPTER K0 (?data ! index after_headings) = None then head_previous
         else group how_many_match 1)"
    and tasks: "tasks_data ?st' = tasks_data after_headings @ t # new"
    and head_id: "\<forall>g1. group how_many_match 1 = Some g1 \<longrightarrow>
        (\<exists>g2. group how_many_match 2 = Some g2 \<and> id_tasks_book t = butlast (g1 @ g2))"
    and run: "\<forall>k<length new. \<exists>m.
        RE_TASK K0 (?data ! (index after_headings + 1 + k)) = Some m \<and>
        RE_SUPREME_CHAPTER K0 (?data ! (index after_headings + 1 + k)) = None \<and>
        paragraph_id (new ! k) = id_chapter (last (chapters_data after_headings)) \<and>
        (group m 1 = None \<longrightarrow>
           (\<exists>prev g4. run_previous = Some prev \<and> group m 4 = Some g4 \<and>
              id_tasks_book (new ! k) = spec_continuation_id prev g4)) \<and>
        (\<forall>g1. group m 1 = Some g1 \<longrightarrow>
           (\<exists>g2. group m 2 = Some g2 \<and> id_tasks_book (new ! k) = butlast (g1 @ g2)))"
    by blast
  from hp rp no_supreme g have rp': "run_previous = Some (ustr ''1.1.'')"
    by simp
  from tasks have t: "t = how_many_task" and new: "new = [and_now_task, rest_task, more_task]"
    by (simp_all add: after_headings_def)
  from head_id g t have "id_tasks_book how_many_task = butlast (ustr ''1.1.'' @ ustr ''1.'')"
    by simp
  moreover from run [rule_format, of 0] new b rp'
  have "id_tasks_book and_now_task = spec_continuation_id (ustr ''1.1.'') (ustr ''b)'')"
    by (simp add: group_def)
  moreover from run [rule_format, of 2] new c rp'
  have "id_tasks_book more_task = spec_continuation_id (ustr ''1.1.'') (ustr ''c)'')"
    by (simp add: group_def)
  ultimately show ?thesis
    using step g(1) by simp
qed

text \<open>
  The claim as it was stated resolves a continuation against the id of the task before
  it. In the first document the task before the continuation \<open>b)\<close> has the id 1.1.1,
  and the continuation gets the id 1.1.b, from the leading-number group \<open>1.1.\<close> of
  that task, and not 1.1.1.b. In the second document the continuation \<open>c)\<close> follows
  the explicitly numbered task 1.2.1 inside the run and gets the id 1.1.c, with the
  leading number of the head of the run and not that of its most recent explicitly
  numbered sibling.
\<close>

theorem continuation_ids_counterexample:
  "parser K0 continuation_doc =
     Inr ([how_many_task, and_now_task, more_task], [numbers_chapter, sums_chapter],
          authors_data) \<and>
   id_tasks_book how_many_task = ustr ''1.1.1'' \<and>
   id_tasks_book and_now_task = ustr ''1.1.b'' \<and>
   spec_continuation_id (id_tasks_book how_many_task) (ustr ''b)'') = ustr ''1.1.1.b'' \<and>
   parser K0 mixed_run_doc =
     Inr ([how_many_task, and_now_task, rest_task, more_task],
          [numbers_chapter, sums_chapter], authors_data) \<and>
   id_tasks_book rest_task = ustr ''1.2.1'' \<and>
   id_tasks_book more_task = ustr ''1.1.c'' \<and>
   spec_continuation_id (id_tasks_book rest_task) (ustr ''c)'') = ustr ''1.2.1.c''"
proof -
  have "parser K0 continuation_doc =
      Inr ([how_many_task, and_now_task, more_task], [numbers_chapter, sums_chapter],
           authors_data)"
    by (simp add: continuation_doc_def how_many_task_def and_now_task_def more_task_def
        numbers_chapter_def sums_chapter_def K0_eval parser_eval)
  moreover have "parser K0 mixed_run_doc =
      Inr ([how_many_task, and_now_task, rest_task, more_task],
           [numbers_chapter, sums_chapter], authors_data)"
    by (simp add: mixed_run_doc_def how_many_task_def and_now_task_def more_task_def
        rest_task_def numbers_chapter_def sums_chapter_def K0_eval parser_eval)
  moreover have "id_tasks_book how_many_task = ustr ''1.1.1''"
    "id_tasks_book and_now_task = ustr ''1.1.b''"
    "id_tasks_book rest_task = ustr ''1.2.1''"
    "id_tasks_book more_task = ustr ''1.1.c''"
    by (simp_all add: how_many_task_def and_now_task_def rest_task_def more_task_def
        new_task_def)
  moreover have "spec_continuation_id (ustr ''1.1.1'') (ustr ''b)'') = ustr ''1.1.1.b''"
    "spec_continuation_id (ustr ''1.2.1'') (ustr ''c)'') = ustr ''1.2.1.c''"
    by (simp_all add: spec_continuation_id_def endswith_dot_def ustr_def)
  ultimately show ?thesis
    by simp
qed

section \<open>A task and its sub-parts\<close>

text \<open>
  Claim C5. Let \<open>answer_parser\<close> return, and let its loop stand on a task whose book id
  has no sub-part (group 1 of its id match is empty or \<open>None\<close>) and whole number \<open>c\<close>,
  while the id of the next task has a sub-part with the same whole number \<open>c\<close>. Then
  the loop goes on to the next task with \<open>c\<close> as the current number, and in the
  returned list the current task has the answer ABSENT and the next task has the
  sub-part extraction from the answer block anchored at \<open>c\<close>: what \<open>get_answer_part\<close>
  returns for the next task's sub-part on the block that \<open>get_answer_text\<close> finds
  for \<open>c\<close>. When the answers text has no block for \<open>c\<close>, there is nothing to extract
  from and the next task has ABSENT as well. In the example of the claim, with the
  instance \<open>K0\<close> of the constants: for the answers block of 14 the task 14 gets ABSENT,
  the extraction for 14b is 7 and the extraction for 14a is 5.
\<close>

theorem same_whole_number_answers:
  assumes "answer_parser K data tasks = Inr ts"
    and "answer_state K (join [0x0A] data) tasks n = Some (i, cur, t)"
    and "i < length tasks"
    and "RE_TASK_ID K (id_tasks_book (tasks ! i)) = Some m"
    and "\<not> truthy (group m 1)"
    and "int_group0 K m = Inr c"
    and "RE_TASK_ID K (id_tasks_book (tasks ! (i + 1))) = Some nm"
    and "truthy (group nm 1)"
    and "PY_int K (the (group nm 1)) = Inr c"
  shows "i + 1 < length tasks \<and>
         (\<exists>t'. answer_state K (join [0x0A] data) tasks (Suc n) = Some (i + 1, c, t')) \<and>
         answer (ts ! i) = Some (ABSENT K) \<and>
         (\<exists>block. get_answer_text K c (join [0x0A] data) = Inr block \<and>
            (if block \<noteq> ABSENT K
             then \<exists>part. get_answer_part K (group nm 2) block = Inr part \<and>
                    answer (ts ! (i + 1)) = Some part
             else answer (ts ! (i + 1)) = Some (ABSENT K)))"
proof -
  let ?atext = "join [0x0A] data"
  from assms(8) obtain g1 where g1: "group nm 1 = Some g1" and "g1 \<noteq> []"
    by (auto simp: truthy_def split: option.splits)
  with assms(9) have n1: "PY_int K g1 = Inr c" by simp
  note ids = answer_state_ids [OF assms(2)]
  then have len: "length t = length tasks"
    by (rule map_eq_imp_length_eq)
  from assms(3) len have it: "i < length t" by simp
  note id_i = same_ids_nth(1) [OF ids assms(3)]
  from assms(1) answer_loop_from_state [OF assms(2)]
  have "answer_loop K ?atext i cur t = Inr ts"
    by (simp add: answer_parser_def)
  from this it obtain i1 c1 t1 where
    s1: "answer_step K ?atext i cur t = Inr (i1, c1, t1)"
    and l1: "answer_loop K ?atext i1 c1 t1 = Inr ts"
    by (rule answer_loop_unfold)
  from s1 have first: "i + 1 < length t \<and> i1 = i + 1 \<and> c1 = c \<and>
      (\<exists>block. get_answer_text K c ?atext = Inr block \<and>
        (if block \<noteq> ABSENT K
         then \<exists>v. get_answer_part K (group nm 2) block = Inr v \<and>
                t1 = set_answer (set_answer t i (ABSENT K)) (i + 1) v
         else t1 = set_answer t i (ABSENT K)))"
  proof (cases rule: answer_step_cases)
    case (sub_assign m' n' block v)
    with id_i assms(4,5) show ?thesis by simp
  next
    case (sub_skip m' n')
    with id_i assms(4,5) show ?thesis by simp
  next
    case (bare_bare m' c0 nm' a c2 a2)
    with len have "id_tasks_book (t ! (i + 1)) = id_tasks_book (tasks ! (i + 1))"
      using same_ids_nth(1) [OF ids, of "i + 1"] by simp
    with bare_bare assms(7) g1 show ?thesis by simp
  next
    case (bare_greater m' c0 nm' g1' n' a block v)
    with len have "id_tasks_book (t ! (i + 1)) = id_tasks_book (tasks ! (i + 1))"
      using same_ids_nth(1) [OF ids, of "i + 1"] by simp
    with bare_greater id_i assms(4,6,7) g1 n1 show ?thesis by simp
  next
    case (bare_equal m' c0 nm' g1' block)
    with len have "id_tasks_book (t ! (i + 1)) = id_tasks_book (tasks ! (i + 1))"
      using same_ids_nth(1) [OF ids, of "i + 1"] by simp
    with bare_equal id_i assms(4,6,7) g1 have "c0 = c" and "nm' = nm"
      by simp_all
    with bare_equal show ?thesis by auto
  next
    case (bare_less m' c0 nm' g1' n')
    with len have "id_tasks_book (t ! (i + 1)) = id_tasks_book (tasks ! (i + 1))"
      using same_ids_nth(1) [OF ids, of "i + 1"] by simp
    with bare_less id_i assms(4,6,7) g1 n1 show ?thesis by simp
  qed
  then obtain block where inside: "i + 1 < length t" and i1: "i1 = i + 1" and c1: "c1 = c"
    and block: "get_answer_text K c ?atext = Inr block"
    and t1: "if block \<noteq> ABSENT K
         then \<exists>v. get_answer_part K (group nm 2) block = Inr v \<and>
                t1 = set_answer (set_answer t i (ABSENT K)) (i + 1) v
         else t1 = set_answer t i (ABSENT K)"
    by blast
  from answer_step_advances [OF s1] have len1: "length t1 = length t" by simp
  from answer_step_writes [OF s1 it refl] have ids1: "map id_tasks_book t1 = map id_tasks_book t"
    by auto
  from t1 it have abs_i: "answer (t1 ! i) = Some (ABSENT K)"
    by (auto split: if_splits)
  from inside len1 have "i1 < length t1" using i1 by simp
  with l1 obtain i2 c2 t2 where
    s2: "answer_step K ?atext i1 c1 t1 = Inr (i2, c2, t2)"
    and l2: "answer_loop K ?atext i2 c2 t2 = Inr ts"
    by (rule answer_loop_unfold)
  from inside len ids ids1 have id_n: "id_tasks_book (t1 ! (i + 1)) = id_tasks_book (tasks ! (i + 1))"
    using same_ids_nth(1) [OF ids1, of "i + 1"] same_ids_nth(1) [OF ids, of "i + 1"] by simp
  from s2 have second: "i2 = i + 2 \<and>
      (\<exists>v. result_of (ABSENT K) (get_answer_part K (group nm 2)) block = Inr v \<and>
         t2 = set_answer t1 (i + 1) v)"
  proof (cases rule: answer_step_cases)
    case (sub_assign m' n' block' v)
    with id_n i1 c1 assms(7,9) block have "m' = nm" and "n' = c" and "block' = block"
      by simp_all
    with sub_assign i1 show ?thesis by simp
  next
    case (sub_skip m' n')
    with id_n i1 c1 assms(7,9) show ?thesis by simp
  qed (use id_n i1 assms(7,8) in auto)
  then obtain v where i2: "i2 = i + 2"
    and v: "result_of (ABSENT K) (get_answer_part K (group nm 2)) block = Inr v"
    and t2: "t2 = set_answer t1 (i + 1) v"
    by blast
  from answer_loop_prefix [OF l2, of i] answer_loop_prefix [OF l2, of "i + 1"] i2
  have "ts ! i = t2 ! i" and "ts ! (i + 1) = t2 ! (i + 1)"
    by simp_all
  with t2 abs_i inside len1 have r1: "answer (ts ! i) = Some (ABSENT K)"
    and r2: "answer (ts ! (i + 1)) = Some v"
    by simp_all
  have "if block \<noteq> ABSENT K
      then \<exists>part. get_answer_part K (group nm 2) block = Inr part \<and>
             answer (ts ! (i + 1)) = Some part
      else answer (ts ! (i + 1)) = Some (ABSENT K)"
    using v r2 by (auto simp: result_of_def split: if_splits)
  with block have r3: "\<exists>block. get_answer_text K c ?atext = Inr block \<and>
      (if block \<noteq> ABSENT K
       then \<exists>part. get_answer_part K (group nm 2) block = Inr part \<and>
              answer (ts ! (i + 1)) = Some part
       else answer (ts ! (i + 1)) = Some (ABSENT K))"
    by blast
  from assms(2) it s1 i1 c1
  have "answer_state K ?atext tasks (Suc n) = Some (i + 1, c, t1)"
    by simp
  with inside len r1 r3 show ?thesis by auto
qed

theorem same_whole_number_answers_witness:
  "answer_parser K0 answers_14 [task_14, task_14b] =
     Inr [task_14\<lparr>answer := Some PNone\<rparr>, task_14b\<lparr>answer := Some (PStr (ustr ''7''))\<rparr>] \<and>
   answer_parser K0 answers_14 [task_14, task_14a] =
     Inr [task_14\<lparr>answer := Some PNone\<rparr>, task_14a\<lparr>answer := Some (PStr (ustr ''5''))\<rparr>] \<and>
   ABSENT K0 = PNone \<and>
   get_answer_text K0 14 (join [0x0A] answers_14) = Inr (PStr block_14) \<and>
   get_answer_part K0 (Some [0x431]) (PStr block_14) = Inr (PStr (ustr ''7'')) \<and>
   get_answer_part K0 (Some [0x430]) (PStr block_14) = Inr (PStr (ustr ''5''))"
proof -
  let ?atext = "join [0x0A] answers_14"
  let ?tb = "[task_14\<lparr>answer := Some PNone\<rparr>, task_14b\<lparr>answer := Some (PStr (ustr ''7''))\<rparr>]"
  let ?ta = "[task_14\<lparr>answer := Some PNone\<rparr>, task_14a\<lparr>answer := Some (PStr (ustr ''5''))\<rparr>]"
  have run_b: "answer_parser K0 answers_14 [task_14, task_14b] = Inr ?tb"
    by (simp add: example_defs K0_eval answer_eval str_nat_eval cong: bindE_cong_weak)
  have run_a: "answer_parser K0 answers_14 [task_14, task_14a] = Inr ?ta"
    by (simp add: example_defs K0_eval answer_eval str_nat_eval cong: bindE_cong_weak)
  have start: "answer_state K0 ?atext ts 0 = Some (0, 0, ts)" for ts
    by simp
  have inside: "0 < length [task_14, t]" for t
    by simp
  have m: "RE_TASK_ID K0 (id_tasks_book ([task_14, t] ! 0)) = Some match_14" for t
    by (simp add: example_defs K0_eval)
  have bare: "\<not> truthy (group match_14 1)"
    by (simp add: example_defs truthy_def group_def)
  have c: "int_group0 K0 match_14 = Inr 14"
    by (simp add: example_defs K0_eval int_group0_def)
  have nm_b: "RE_TASK_ID K0 (id_tasks_book ([task_14, task_14b] ! (0 + 1))) = Some match_14b"
    by (simp add: example_defs K0_eval)
  have nm_a: "RE_TASK_ID K0 (id_tasks_book ([task_14, task_14a] ! (0 + 1))) = Some match_14a"
    by (simp add: example_defs K0_eval)
  have sub: "truthy (group match_14b 1)" "truthy (group match_14a 1)"
    by (simp_all add: example_defs truthy_def group_def ustr_def)
  have n: "PY_int K0 (the (group match_14b 1)) = Inr 14"
    "PY_int K0 (the (group match_14a 1)) = Inr 14"
    by (simp_all add: example_defs K0_eval)
  have absent: "ABSENT K0 = PNone"
    by (simp add: K0_def)
  have block: "get_answer_text K0 14 ?atext = Inr (PStr block_14)"
    by (simp add: example_defs K0_eval get_answer_text_def str_nat_eval)
  have g2: "group match_14b 2 = Some [0x431]" "group match_14a 2 = Some [0x430]"
    by (simp_all add: example_defs group_def)
  from same_whole_number_answers [OF run_b start inside m bare c nm_b sub(1) n(1)]
  have "get_answer_part K0 (Some [0x431]) (PStr block_14) = Inr (PStr (ustr ''7''))"
    using block absent g2(1) by auto
  moreover
  from same_whole_number_answers [OF run_a start inside m bare c nm_a sub(2) n(2)]
  have "get_answer_part K0 (Some [0x430]) (PStr block_14) = Inr (PStr (ustr ''5''))"
    using block absent g2(2) by auto
  ultimately show ?thesis
    using run_a run_b absent block by simp
qed

section \<open>The look-ahead of the answer loop\<close>




section \<open>Running the reconciler twice\<close>

text \<open>
  Claim C8. When \<open>answer_parser\<close> returns a task list for given answers and tasks,
  running it again on the same answers and on the returned list returns that list
  unchanged: every task keeps the answer of the first run. (The task records of a list
  are distinct objects, one for each task paragraph, as the main pass creates them.)
\<close>

theorem answer_parser_idempotent:
  assumes "answer_parser K data tasks = Inr ts"
  shows "answer_parser K data ts = Inr ts"
proof -
  from assms have run: "answer_loop K (join [0x0A] data) 0 0 tasks = Inr ts"
    by (simp add: answer_parser_def)
  from answer_loop_writes [OF run refl] obtain W where ts: "ts = apply_writes W tasks"
    by blast
  then have "map id_tasks_book ts = map id_tasks_book tasks" by simp
  from answer_loop_writes [OF run this] obtain W' where ts': "ts = apply_writes W' tasks"
    and again: "answer_loop K (join [0x0A] data) 0 0 ts = Inr (apply_writes W' ts)"
    by blast
  from ts' have "apply_writes W' ts = ts"
    using apply_writes_idem [of W' tasks] by simp
  with again show ?thesis
    by (simp add: answer_parser_def)
qed

theorem answer_parser_idempotent_witness:
  "answer_parser K0 answers_14 [task_14, task_14a, task_14b] = Inr answered_14 \<and>
   answer_parser K0 answers_14 answered_14 = Inr answered_14"
  using answer_parser_idempotent [OF answer_parser_14] answer_parser_14
  by simp

section \<open>Every task gets an answer\<close>

text \<open>
  Claim C1, as amended. Whenever \<open>answer_parser\<close> returns, it returns as many tasks as
  it was given, and every one of them either has an \<open>answer\<close> whose value is the
  sentinel ABSENT or a string extracted from the answers text (the stripped text of an
  answer block, or what \<open>get_answer_part\<close> extracts from such a block), or is a task
  that the loop passed over and is returned as it was given, with no answer assigned
  by the reconciler. The loop passes over a task it stands on in two cases: the task
  has a sub-part and its whole number is below the current task number, or it has no
  sub-part and the next task has a sub-part with a smaller whole number. An answer
  that is not found is no error: where the pattern of a number finds nothing,
  \<open>get_answer_text\<close> returns ABSENT.
\<close>

theorem every_task_answered:
  assumes "answer_parser K data tasks = Inr ts"
  shows "length ts = length tasks \<and>
         (\<forall>j<length tasks.
            (\<exists>v. answer (ts ! j) = Some v \<and>
               (v = ABSENT K \<or> extracted K (join [0x0A] data) v)) \<or>
            (passed_over K (join [0x0A] data) tasks j \<and> ts ! j = tasks ! j)) \<and>
         (\<forall>n. RE_ANSWER_TEXT K n (join [0x0A] data) = None \<longrightarrow>
            get_answer_text K n (join [0x0A] data) = Inr (ABSENT K))"
proof -
  let ?atext = "join [0x0A] data"
  from assms have run: "answer_loop K ?atext 0 0 tasks = Inr ts"
    by (simp add: answer_parser_def)
  have "answer_state K ?atext tasks 0 = Some (0, 0, tasks)" by simp
  from answer_loop_final_state [OF run this] obtain n i cur where
    final: "answer_state K ?atext tasks n = Some (i, cur, ts)" and finished: "length ts \<le> i"
    by blast
  from answer_state_ids [OF final] have len: "length ts = length tasks"
    by (rule map_eq_imp_length_eq)
  from answer_state_invariant [OF final] finished len
  have "\<forall>j<length tasks.
      answered K ?atext (ts ! j) \<or> (passed_over K ?atext tasks j \<and> ts ! j = tasks ! j)"
    by auto
  then have "\<forall>j<length tasks.
      (\<exists>v. answer (ts ! j) = Some v \<and> (v = ABSENT K \<or> extracted K ?atext v)) \<or>
      (passed_over K ?atext tasks j \<and> ts ! j = tasks ! j)"
    by (simp add: answered_def)
  moreover have "\<forall>n. RE_ANSWER_TEXT K n ?atext = None \<longrightarrow>
      get_answer_text K n ?atext = Inr (ABSENT K)"
    by (simp add: get_answer_text_def)
  ultimately show ?thesis
    using len by simp
qed

theorem every_task_answered_witness:
  "answer_parser K0 answers_14 [task_14, task_14a, task_14b] = Inr answered_14 \<and>
   answer (answered_14 ! 0) = Some (ABSENT K0) \<and>
   answer (answered_14 ! 2) = Some (PStr (ustr ''7'')) \<and>
   extracted K0 (join [0x0A] answers_14) (PStr (ustr ''7'')) \<and>
   answer_parser K0 answers_14 [task_15a, task_14b] =
     Inr [task_15a\<lparr>answer := Some PNone\<rparr>, task_14b] \<and>
   passed_over K0 (join [0x0A] answers_14) [task_15a, task_14b] 1"
proof -
  let ?atext = "join [0x0A] answers_14"
  from every_task_answered [OF answer_parser_14, THEN conjunct2, THEN conjunct1, rule_format,
      of 2]
  have "(\<exists>v. answer (answered_14 ! 2) = Some v \<and> (v = ABSENT K0 \<or> extracted K0 ?atext v)) \<or>
      (passed_over K0 ?atext [task_14, task_14a, task_14b] 2 \<and>
       answered_14 ! 2 = [task_14, task_14a, task_14b] ! 2)"
    by simp
  then have seven: "extracted K0 ?atext (PStr (ustr ''7''))"
    by (simp add: answered_14_def task_14b_def new_task_def K0_def)
  have run: "answer_parser K0 answers_14 [task_15a, task_14b] =
      Inr [task_15a\<lparr>answer := Some PNone\<rparr>, task_14b]"
    by (simp add: example_defs K0_eval answer_eval str_nat_eval cong: bindE_cong_weak)
  from every_task_answered [OF run, THEN conjunct2, THEN conjunct1, rule_format, of 1]
  have "(\<exists>v. answer ([task_15a\<lparr>answer := Some PNone\<rparr>, task_14b] ! 1) = Some v \<and>
         (v = ABSENT K0 \<or> extracted K0 ?atext v)) \<or>
      (passed_over K0 ?atext [task_15a, task_14b] 1 \<and>
       [task_15a\<lparr>answer := Some PNone\<rparr>, task_14b] ! 1 = [task_15a, task_14b] ! 1)"
    by simp
  then have passed: "passed_over K0 ?atext [task_15a, task_14b] 1"
    by (simp add: task_14b_def new_task_def)
  from seven passed run answer_parser_14 show ?thesis
    by (simp add: answered_14_def K0_def)
qed

text \<open>
  The claim as it was stated says that no task is left without an assigned answer. A
  task with a sub-part whose whole number is below the number of a task before it is
  passed over and keeps no \<open>answer\<close>: for the tasks 15a and 14b the reconciler
  returns, and 14b has none.
\<close>

theorem every_task_answered_counterexample:
  "answer_parser K0 answers_14 [task_15a, task_14b] =
     Inr [task_15a\<lparr>answer := Some PNone\<rparr>, task_14b] \<and>
   answer task_14b = None"
  by (simp add: example_defs K0_eval answer_eval str_nat_eval cong: bindE_cong_weak)

end
